theory Spec2Isabelle
  imports Complex_Main
begin

section \<open>Data model\<close>

text \<open>
  The safe-route computation of \<^verbatim>\<open>backend/main.py\<close> (\<^verbatim>\<open>calculate_route\<close>,
  \<^verbatim>\<open>get_wildfires\<close>) and of \<^verbatim>\<open>backend/load_fire_data.py\<close> (\<^verbatim>\<open>get_wildfire_data\<close>),
  with the functions of networkx and osmnx it calls.

  Python floats are modelled as \<^typ>\<open>real\<close>: rounding, NaN and infinities are
  abstracted away.  OSM node identifiers are Python ints.
\<close>

type_synonym node = int

text \<open>
  A road network as osmnx delivers it: a networkx \<^verbatim>\<open>MultiDiGraph\<close>.  \<open>gnodes\<close> is the
  node dictionary (id, attribute \<^verbatim>\<open>x\<close> = longitude, attribute \<^verbatim>\<open>y\<close> = latitude),
  \<open>gedges\<close> the directed edges with their \<^verbatim>\<open>length\<close> attribute; parallel edges are
  repeated entries.
\<close>

record graph =
  gnodes :: "(node \<times> real \<times> real) list"
  gedges :: "(node \<times> node \<times> real) list"

text \<open>The exceptions that can travel through \<^verbatim>\<open>calculate_route\<close>, each with its message.\<close>

datatype exn =
    HTTPException nat string
  | NetworkXNoPath string
  | NodeNotFound string
  | ValueError string
  | KeyError string
  | ProviderError string

text \<open>A record of the list \<^verbatim>\<open>get_wildfire_data\<close> returns (\<^verbatim>\<open>df.to_dict('records')\<close>).\<close>

record fire =
  FIRE_YEAR :: int
  state :: string
  latitude :: real
  longitude :: real
  fire_size :: real
  confidence :: int
  bright_ti4 :: int

text \<open>\<^verbatim>\<open>class RouteRequest(BaseModel)\<close>: four floats, no validators.\<close>

record RouteRequest =
  start_lat :: real
  start_lon :: real
  end_lat :: real
  end_lon :: real

text \<open>
  What the program takes from outside: the SQLite database behind
  \<^verbatim>\<open>pd.read_sql_query\<close> (the rows for a year and a state, or the exception raised),
  the osmnx download \<^verbatim>\<open>ox.graph_from_bbox\<close>, the metric \<^verbatim>\<open>ox.nearest_nodes\<close>
  minimises (great-circle distance between a node's (x, y) and the query's (X, Y)), and
  Python's \<^verbatim>\<open>:.4f\<close> float formatting.
\<close>

record env =
  fire_db :: "int \<Rightarrow> string \<Rightarrow> exn + (int \<times> string \<times> real \<times> real \<times> real) list"
  graph_from_bbox :: "real \<Rightarrow> real \<Rightarrow> real \<Rightarrow> real \<Rightarrow> exn + graph"
  metric :: "real \<times> real \<Rightarrow> real \<times> real \<Rightarrow> real"
  fmt4 :: "real \<Rightarrow> string"

text \<open>
  The process state: the two module-level caches and the graph objects they refer to.
  Graph objects live in a store, because \<^verbatim>\<open>graph_cache\<close> holds references and
  \<^verbatim>\<open>remove_nodes_from\<close> mutates the object it is called on.
\<close>

type_synonym addr = nat

record server_state =
  graph_cache :: "string \<rightharpoonup> addr"
  wildfire_data_cache :: "string \<rightharpoonup> fire list"
  heap :: "addr \<Rightarrow> graph"
  next_addr :: addr

definition alloc :: "server_state \<Rightarrow> graph \<Rightarrow> addr \<times> server_state" where
  "alloc s g = (next_addr s, s\<lparr>heap := (heap s)(next_addr s := g), next_addr := Suc (next_addr s)\<rparr>)"

section \<open>Decimal rendering of integers (\<^verbatim>\<open>str\<close>, f-strings)\<close>

function str_nat :: "nat \<Rightarrow> string" where
  "str_nat n = (if n < 10 then [char_of (48 + n)] else str_nat (n div 10) @ [char_of (48 + n mod 10)])"
  by pat_completeness auto

termination
  by (relation "measure id") auto

declare str_nat.simps [simp del]

definition str_int :: "int \<Rightarrow> string" where
  "str_int i = (if i < 0 then ''-'' @ str_nat (nat (- i)) else str_nat (nat i))"

text \<open>
  \<^verbatim>\<open>str(e)\<close> as used in the detail of the 500 response; starlette renders an
  \<^verbatim>\<open>HTTPException\<close> as \<^verbatim>\<open>"{status_code}: {detail}"\<close>.
\<close>

fun exn_str :: "exn \<Rightarrow> string" where
  "exn_str (HTTPException code det) = str_nat code @ '': '' @ det"
| "exn_str (NetworkXNoPath m) = m"
| "exn_str (NodeNotFound m) = m"
| "exn_str (ValueError m) = m"
| "exn_str (KeyError m) = m"
| "exn_str (ProviderError m) = m"

section \<open>\<^verbatim>\<open>load_fire_data.get_wildfire_data\<close> and \<^verbatim>\<open>get_wildfires\<close>\<close>

text \<open>
  \<^verbatim>\<open>get_wildfire_data\<close> returns the renamed records with the two constant columns
  added, and \<^verbatim>\<open>None\<close> when anything raised.
\<close>

definition get_wildfire_data :: "env \<Rightarrow> int \<Rightarrow> string \<Rightarrow> fire list option" where
  "get_wildfire_data e year st =
     (case fire_db e year st of
        Inl err \<Rightarrow> None
      | Inr rows \<Rightarrow>
          Some (map (\<lambda>(fy, s, la, lo, fs).
                  \<lparr>FIRE_YEAR = fy, state = s, latitude = la, longitude = lo,
                   fire_size = fs, confidence = 90, bright_ti4 = 330\<rparr>) rows))"

definition no_data_detail :: string where
  "no_data_detail = ''No wildfire data found for the specified year and state.''"

text \<open>\<^verbatim>\<open>if not hotspots\<close> is true for \<^verbatim>\<open>None\<close> and for the empty list alike.\<close>

definition get_wildfires :: "env \<Rightarrow> server_state \<Rightarrow> int \<Rightarrow> string \<Rightarrow> (exn + fire list) \<times> server_state" where
  "get_wildfires e s year st =
     (let cache_key = str_int year @ ''-'' @ st in
      case wildfire_data_cache s cache_key of
        Some cached \<Rightarrow> (Inr cached, s)
      | None \<Rightarrow>
          (case get_wildfire_data e year st of
             None \<Rightarrow> (Inl (HTTPException 404 no_data_detail), s)
           | Some hotspots \<Rightarrow>
               if hotspots = [] then (Inl (HTTPException 404 no_data_detail), s)
               else (Inr hotspots,
                     s\<lparr>wildfire_data_cache := (wildfire_data_cache s)(cache_key \<mapsto> hotspots)\<rparr>)))"

section \<open>Graph operations of networkx and osmnx\<close>

text \<open>
  The functions of this section are library functions (networkx, osmnx); their code is
  not part of the repository.  Each is modelled after the library's algorithm as the
  repository calls it.
\<close>

definition node_ids :: "graph \<Rightarrow> node list" where
  "node_ids G = map fst (gnodes G)"

text \<open>\<^verbatim>\<open>G._adj[v]\<close>: the successors of \<open>v\<close>, each once, in insertion order.\<close>

fun nub :: "'a list \<Rightarrow> 'a list" where
  "nub [] = []"
| "nub (x # xs) = x # nub (filter (\<lambda>y. y \<noteq> x) xs)"

definition neighbors :: "graph \<Rightarrow> node \<Rightarrow> node list" where
  "neighbors G v = nub (map (\<lambda>(a, b, l). b) (filter (\<lambda>(a, b, l). a = v) (gedges G)))"

text \<open>
  The weight function networkx builds for a multigraph and \<^verbatim>\<open>weight='length'\<close>: the
  least \<^verbatim>\<open>length\<close> among the parallel edges from \<open>u\<close> to \<open>v\<close>.
\<close>

definition weight :: "graph \<Rightarrow> node \<Rightarrow> node \<Rightarrow> real" where
  "weight G u v = min_list (map (\<lambda>(a, b, l). l) (filter (\<lambda>(a, b, l). a = u \<and> b = v) (gedges G)))"

text \<open>\<^verbatim>\<open>G.copy()\<close> followed by \<^verbatim>\<open>remove_nodes_from\<close>: the nodes go, and every edge incident to one of them.\<close>

definition remove_nodes_from :: "graph \<Rightarrow> node set \<Rightarrow> graph" where
  "remove_nodes_from G ns =
     \<lparr>gnodes = filter (\<lambda>(i, x, y). i \<notin> ns) (gnodes G),
      gedges = filter (\<lambda>(a, b, l). a \<notin> ns \<and> b \<notin> ns) (gedges G)\<rparr>"

text \<open>\<^verbatim>\<open>G.subgraph(nbunch).copy()\<close>: the subgraph induced by the nodes of \<open>G\<close> that \<open>keep\<close> holds of (membership in \<^verbatim>\<open>nbunch\<close>).\<close>

definition subgraph :: "graph \<Rightarrow> (node \<Rightarrow> bool) \<Rightarrow> graph" where
  "subgraph G keep =
     \<lparr>gnodes = filter (\<lambda>(i, x, y). keep i) (gnodes G),
      gedges = filter (\<lambda>(a, b, l). keep a \<and> keep b) (gedges G)\<rparr>"

text \<open>
  \<^verbatim>\<open>ox.nearest_nodes(G, X, Y)\<close>: the node of \<open>G\<close> nearest to the point; it raises on
  a graph without nodes.
\<close>

definition nearest_nodes :: "env \<Rightarrow> graph \<Rightarrow> real \<Rightarrow> real \<Rightarrow> exn + node" where
  "nearest_nodes e G X Y =
     (if gnodes G = [] then Inl (ValueError ''nearest_nodes: graph has no nodes'')
      else Inr (fst (arg_min_list (\<lambda>(i, x, y). metric e (x, y) (X, Y)) (gnodes G))))"

text \<open>
  \<^verbatim>\<open>heapq.heappop\<close> on tuples that start with (priority, counter): the least entry
  in the lexicographic order; the counters are unique, so later components are never
  compared.
\<close>

fun heap_le :: "real \<times> nat \<times> 'a \<Rightarrow> real \<times> nat \<times> 'a \<Rightarrow> bool" where
  "heap_le (p, c, x) (p', c', x') = (p < p' \<or> (p = p' \<and> c \<le> c'))"

fun heap_min :: "real \<times> nat \<times> 'a \<Rightarrow> (real \<times> nat \<times> 'a) list \<Rightarrow> real \<times> nat \<times> 'a" where
  "heap_min m [] = m"
| "heap_min m (y # ys) = heap_min (if heap_le m y then m else y) ys"

subsection \<open>\<^verbatim>\<open>nx.ego_graph(G, n, radius, distance='length')\<close>\<close>

text \<open>
  \<^verbatim>\<open>ego_graph\<close> with a \<^verbatim>\<open>distance\<close> attribute calls
  \<^verbatim>\<open>single_source_dijkstra(G, n, cutoff=radius, weight=distance)\<close> and returns the
  subgraph induced by the keys of the distance dictionary.  The search is networkx's
  \<^verbatim>\<open>_dijkstra_multisource\<close> with one source, no target and no predecessor
  dictionary: \<open>dst\<close> (the dictionary \<^verbatim>\<open>dist\<close>) holds the final distances, \<open>seen\<close> the best
  distance pushed so far, \<open>fringe\<close> the heap of (distance, counter, node).

  \<open>relax\<close> is the inner loop over the successors \<open>u\<close> of the node \<open>v\<close> just
  finalised with distance \<open>dv\<close>.
\<close>

type_synonym fentry = "real \<times> nat \<times> node"

fun relax :: "graph \<Rightarrow> real \<Rightarrow> node \<Rightarrow> real \<Rightarrow> (node \<rightharpoonup> real) \<Rightarrow> node list
    \<Rightarrow> (node \<rightharpoonup> real) \<times> fentry list \<times> nat \<Rightarrow> exn + (node \<rightharpoonup> real) \<times> fentry list \<times> nat" where
  "relax G cutoff v dv dst [] acc = Inr acc"
| "relax G cutoff v dv dst (u # us) (seen, fringe, c) =
     (let vu_dist = dv + weight G v u in
      if vu_dist > cutoff then relax G cutoff v dv dst us (seen, fringe, c)
      else
        (case dst u of
           Some u_dist \<Rightarrow>
             if vu_dist < u_dist
             then Inl (ValueError ''Contradictory paths found: negative weights?'')
             else relax G cutoff v dv dst us (seen, fringe, c)
         | None \<Rightarrow>
             (case seen u of
                None \<Rightarrow>
                  relax G cutoff v dv dst us (seen(u \<mapsto> vu_dist), fringe @ [(vu_dist, c, u)], Suc c)
              | Some su \<Rightarrow>
                  if vu_dist < su
                  then relax G cutoff v dv dst us (seen(u \<mapsto> vu_dist), fringe @ [(vu_dist, c, u)], Suc c)
                  else relax G cutoff v dv dst us (seen, fringe, c))))"

definition fnodes :: "fentry list \<Rightarrow> node set" where
  "fnodes fringe = (\<lambda>(d, k, v). v) ` set fringe"

definition targets :: "graph \<Rightarrow> node set" where
  "targets G = (\<lambda>(a, b, l). b) ` set (gedges G)"

function dijkstra_loop :: "graph \<Rightarrow> real \<Rightarrow> (node \<rightharpoonup> real) \<Rightarrow> (node \<rightharpoonup> real) \<Rightarrow> fentry list \<Rightarrow> nat
    \<Rightarrow> exn + (node \<rightharpoonup> real)" where
  "dijkstra_loop G cutoff dst seen fringe c =
     (case fringe of
        [] \<Rightarrow> Inr dst
      | x # xs \<Rightarrow>
          (case heap_min x xs of
             (d, k, v) \<Rightarrow>
               if dst v \<noteq> None
               then dijkstra_loop G cutoff dst seen (remove1 (d, k, v) fringe) c
               else
                 (case relax G cutoff v d (dst(v \<mapsto> d)) (neighbors G v)
                         (seen, remove1 (d, k, v) fringe, c) of
                    Inl err \<Rightarrow> Inl err
                  | Inr (seen', fringe', c') \<Rightarrow>
                      dijkstra_loop G cutoff (dst(v \<mapsto> d)) seen' fringe' c')))"
  by pat_completeness auto

definition single_source_dijkstra :: "graph \<Rightarrow> node \<Rightarrow> real \<Rightarrow> exn + (node \<rightharpoonup> real)" where
  "single_source_dijkstra G source cutoff =
     (if source \<notin> set (node_ids G)
      then Inl (NodeNotFound (''Node '' @ str_int source @ '' not found in graph''))
      else dijkstra_loop G cutoff Map.empty [source \<mapsto> 0] [(0, 0, source)] 1)"

definition ego_graph :: "graph \<Rightarrow> node \<Rightarrow> real \<Rightarrow> exn + graph" where
  "ego_graph G n radius =
     (case single_source_dijkstra G n radius of
        Inl err \<Rightarrow> Inl err
      | Inr sp \<Rightarrow> Inr (subgraph G (\<lambda>v. sp v \<noteq> None)))"

subsection \<open>\<^verbatim>\<open>nx.astar_path(G, source, target, weight='length')\<close>\<close>

text \<open>
  No heuristic is passed, so networkx takes the constant 0.  The queue holds
  (priority, counter, node, cost to reach, parent); \<open>enqueued\<close> maps a node to the cost
  and heuristic value of its best queued path, \<open>explored\<close> maps an explored node to its
  parent (\<open>None\<close> for the source).  The search has no bound of its own: on a graph with
  a negative cycle it can run forever, so the loop is a partial function and \<open>None\<close>
  stands for a call that does not return.
\<close>

type_synonym qentry = "real \<times> nat \<times> node \<times> real \<times> node option"

definition heuristic :: "node \<Rightarrow> node \<Rightarrow> real" where
  "heuristic u v = 0"

text \<open>The inner loop over the successors of \<open>curnode\<close>, reached with cost \<open>dst\<close>.\<close>

fun astar_expand :: "graph \<Rightarrow> node \<Rightarrow> node \<Rightarrow> real \<Rightarrow> node list
    \<Rightarrow> (node \<rightharpoonup> real \<times> real) \<times> qentry list \<times> nat \<Rightarrow> (node \<rightharpoonup> real \<times> real) \<times> qentry list \<times> nat" where
  "astar_expand G target curnode dst [] acc = acc"
| "astar_expand G target curnode dst (neighbor # ns) (enqueued, queue, c) =
     (let ncost = dst + weight G curnode neighbor in
      case enqueued neighbor of
        Some (qcost, h) \<Rightarrow>
          if qcost \<le> ncost then astar_expand G target curnode dst ns (enqueued, queue, c)
          else astar_expand G target curnode dst ns
                 (enqueued(neighbor \<mapsto> (ncost, h)),
                  queue @ [(ncost + h, c, neighbor, ncost, Some curnode)], Suc c)
      | None \<Rightarrow>
          (let h = heuristic neighbor target in
           astar_expand G target curnode dst ns
             (enqueued(neighbor \<mapsto> (ncost, h)),
              queue @ [(ncost + h, c, neighbor, ncost, Some curnode)], Suc c)))"

text \<open>
  The test at the head of the loop body: \<^verbatim>\<open>continue\<close> when the node is the source
  (explored with parent \<open>None\<close>) or was queued again with a lower cost.
\<close>

definition astar_stale :: "(node \<rightharpoonup> real \<times> real) \<Rightarrow> (node \<rightharpoonup> node option) \<Rightarrow> node \<Rightarrow> real \<Rightarrow> exn + bool" where
  "astar_stale enqueued explored curnode dst =
     (case explored curnode of
        None \<Rightarrow> Inr False
      | Some None \<Rightarrow> Inr True
      | Some (Some p) \<Rightarrow>
          (case enqueued curnode of
             None \<Rightarrow> Inl (KeyError (str_int curnode))
           | Some (qcost, h) \<Rightarrow> Inr (qcost < dst)))"

text \<open>Following the parents back from the target, then \<^verbatim>\<open>path.reverse()\<close>.\<close>

partial_function (option) build_path :: "(node \<rightharpoonup> node option) \<Rightarrow> node option \<Rightarrow> node list \<Rightarrow> (exn + node list) option" where
  "build_path explored nd path =
     (case nd of
        None \<Rightarrow> Some (Inr (rev path))
      | Some n \<Rightarrow>
          (case explored n of
             None \<Rightarrow> Some (Inl (KeyError (str_int n)))
           | Some p \<Rightarrow> build_path explored p (path @ [n])))"

declare build_path.simps [code]

partial_function (option) astar_loop :: "graph \<Rightarrow> node \<Rightarrow> string \<Rightarrow> qentry list \<Rightarrow> (node \<rightharpoonup> real \<times> real)
    \<Rightarrow> (node \<rightharpoonup> node option) \<Rightarrow> nat \<Rightarrow> (exn + node list) option" where
  "astar_loop G target msg queue enqueued explored c =
     (case queue of
        [] \<Rightarrow> Some (Inl (NetworkXNoPath msg))
      | x # xs \<Rightarrow>
          (case heap_min x xs of
             (prio, cnt, curnode, dst, parent) \<Rightarrow>
               if curnode = target then build_path explored parent [curnode]
               else
                 (case astar_stale enqueued explored curnode dst of
                    Inl err \<Rightarrow> Some (Inl err)
                  | Inr stale \<Rightarrow>
                      if stale
                      then astar_loop G target msg (remove1 (prio, cnt, curnode, dst, parent) queue)
                             enqueued explored c
                      else
                        (case astar_expand G target curnode dst (neighbors G curnode)
                                (enqueued, remove1 (prio, cnt, curnode, dst, parent) queue, c) of
                           (enqueued', queue', c') \<Rightarrow>
                             astar_loop G target msg queue' enqueued'
                               (explored(curnode \<mapsto> parent)) c'))))"

declare astar_loop.simps [code]

definition astar_path :: "graph \<Rightarrow> node \<Rightarrow> node \<Rightarrow> (exn + node list) option" where
  "astar_path G source target =
     (if source \<notin> set (node_ids G) \<or> target \<notin> set (node_ids G)
      then Some (Inl (NodeNotFound
             (''Either source '' @ str_int source @ '' or target '' @ str_int target @ '' is not in G'')))
      else astar_loop G target
             (''Node '' @ str_int target @ '' not reachable from '' @ str_int source)
             [(0, 0, source, 0, None)] Map.empty Map.empty 1)"

section \<open>\<^verbatim>\<open>calculate_route\<close>\<close>

text \<open>The bounding box (north, south, east, west): the extremes of the two points and a margin of 0.1 degrees.\<close>

definition bbox :: "RouteRequest \<Rightarrow> real \<times> real \<times> real \<times> real" where
  "bbox request =
     (let start_point = (start_lat request, start_lon request);
          end_point = (end_lat request, end_lon request)
      in (max (fst start_point) (fst end_point) + 0.1,
          min (fst start_point) (fst end_point) - 0.1,
          max (snd start_point) (snd end_point) + 0.1,
          min (snd start_point) (snd end_point) - 0.1))"

definition graph_cache_key :: "env \<Rightarrow> real \<times> real \<times> real \<times> real \<Rightarrow> string" where
  "graph_cache_key e box =
     (case box of (north, south, east, west) \<Rightarrow>
        fmt4 e north @ ''-'' @ fmt4 e south @ ''-'' @ fmt4 e east @ ''-'' @ fmt4 e west)"

text \<open>The cached graph object, or a download stored in the cache.\<close>

definition load_graph :: "env \<Rightarrow> server_state \<Rightarrow> real \<times> real \<times> real \<times> real \<Rightarrow> (exn + addr) \<times> server_state" where
  "load_graph e s box =
     (case graph_cache s (graph_cache_key e box) of
        Some G \<Rightarrow> (Inr G, s)
      | None \<Rightarrow>
          (case box of (north, south, east, west) \<Rightarrow>
             (case graph_from_bbox e north south east west of
                Inl err \<Rightarrow> (Inl err, s)
              | Inr g \<Rightarrow>
                  (case alloc s g of
                     (G, s') \<Rightarrow>
                       (Inr G, s'\<lparr>graph_cache := (graph_cache s')(graph_cache_key e box \<mapsto> G)\<rparr>)))))"

text \<open>
  The loop over \<^verbatim>\<open>danger_zones\<close>: a zone strictly inside the box adds the nodes of the
  ego graph around its nearest node.  The radius is the local constant
  \<^verbatim>\<open>danger_radius_meters\<close>, a parameter here.
\<close>

fun avoid_loop :: "env \<Rightarrow> graph \<Rightarrow> real \<times> real \<times> real \<times> real \<Rightarrow> real \<Rightarrow> (real \<times> real) list \<Rightarrow> node set
    \<Rightarrow> exn + node set" where
  "avoid_loop e G box radius [] nodes_to_avoid = Inr nodes_to_avoid"
| "avoid_loop e G (north, south, east, west) radius ((lon, lat) # zones) nodes_to_avoid =
     (if west < lon \<and> lon < east \<and> south < lat \<and> lat < north then
        (case nearest_nodes e G lon lat of
           Inl err \<Rightarrow> Inl err
         | Inr center_node \<Rightarrow>
             (case ego_graph G center_node radius of
                Inl err \<Rightarrow> Inl err
              | Inr nodes_within_radius \<Rightarrow>
                  avoid_loop e G (north, south, east, west) radius zones
                    (nodes_to_avoid \<union> set (node_ids nodes_within_radius))))
      else avoid_loop e G (north, south, east, west) radius zones nodes_to_avoid)"

definition danger_zones_of :: "fire list \<Rightarrow> (real \<times> real) list" where
  "danger_zones_of hotspots = map (\<lambda>fire. (longitude fire, latitude fire)) hotspots"

definition danger_radius_meters :: real where
  "danger_radius_meters = 1000"

text \<open>
  Steps shared by \<^verbatim>\<open>calculate_route\<close> and the script
  \<^verbatim>\<open>generate_evacuation_route.py\<close>: the two projections on the safe graph and the
  search between them.  Points are (latitude, longitude).
\<close>

definition route_on :: "env \<Rightarrow> graph \<Rightarrow> real \<times> real \<Rightarrow> real \<times> real \<Rightarrow> (exn + node \<times> node \<times> node list) option" where
  "route_on e Gs start_point end_point =
     (case nearest_nodes e Gs (snd start_point) (fst start_point) of
        Inl err \<Rightarrow> Some (Inl err)
      | Inr start_node \<Rightarrow>
          (case nearest_nodes e Gs (snd end_point) (fst end_point) of
             Inl err \<Rightarrow> Some (Inl err)
           | Inr end_node \<Rightarrow>
               (case astar_path Gs start_node end_node of
                  None \<Rightarrow> None
                | Some (Inl err) \<Rightarrow> Some (Inl err)
                | Some (Inr safe_route_nodes) \<Rightarrow> Some (Inr (start_node, end_node, safe_route_nodes)))))"

text \<open>The response loop: \<^verbatim>\<open>G.nodes[node_id]\<close>, then \<^verbatim>\<open>[node['y'], node['x']]\<close>.\<close>

fun coords_of :: "graph \<Rightarrow> node list \<Rightarrow> exn + (real \<times> real) list" where
  "coords_of G [] = Inr []"
| "coords_of G (node_id # rest) =
     (case map_of (gnodes G) node_id of
        None \<Rightarrow> Inl (KeyError (str_int node_id))
      | Some (x, y) \<Rightarrow>
          (case coords_of G rest of
             Inl err \<Rightarrow> Inl err
           | Inr cs \<Rightarrow> Inr ((y, x) # cs)))"

text \<open>The local variables of a call that reached the \<^verbatim>\<open>return\<close>.\<close>

record plan =
  plan_G :: addr
  nodes_to_avoid :: "node set"
  G_safe :: addr
  start_node :: node
  end_node :: node
  safe_route_nodes :: "node list"
  route_coords :: "(real \<times> real) list"

text \<open>
  The body of the \<^verbatim>\<open>try\<close> in two parts; an exception leaves the state as it was
  when raised.  The first part runs up to \<^verbatim>\<open>G_safe.remove_nodes_from(...)\<close> and yields
  the references \<open>G\<close> and \<open>G_safe\<close> with the set \<open>nodes_to_avoid\<close>: the hazards
  are those of year 2015 and state CA, \<open>G_safe\<close> is a new object (the copy), and the
  removal mutates that object.
\<close>

definition prepare_safe_graph :: "env \<Rightarrow> server_state \<Rightarrow> RouteRequest
    \<Rightarrow> (exn + addr \<times> node set \<times> addr) \<times> server_state" where
  "prepare_safe_graph e s request =
     (case get_wildfires e s 2015 ''CA'' of
        (Inl err, s1) \<Rightarrow> (Inl err, s1)
      | (Inr hotspots, s1) \<Rightarrow>
          (case load_graph e s1 (bbox request) of
             (Inl err, s2) \<Rightarrow> (Inl err, s2)
           | (Inr G, s2) \<Rightarrow>
               (case avoid_loop e (heap s2 G) (bbox request) danger_radius_meters
                       (danger_zones_of hotspots) {} of
                  Inl err \<Rightarrow> (Inl err, s2)
                | Inr avoid \<Rightarrow>
                    (case alloc s2 (heap s2 G) of
                       (Gs, s3) \<Rightarrow>
                         (Inr (G, avoid, Gs),
                          s3\<lparr>heap := (heap s3)(Gs := remove_nodes_from (heap s3 Gs) avoid)\<rparr>)))))"

text \<open>The second part: projections, search and the list of [lat, lon] read from \<open>G\<close>.\<close>

definition calculate_route_try :: "env \<Rightarrow> server_state \<Rightarrow> RouteRequest \<Rightarrow> ((exn + plan) \<times> server_state) option" where
  "calculate_route_try e s request =
     (case prepare_safe_graph e s request of
        (Inl err, s') \<Rightarrow> Some (Inl err, s')
      | (Inr (G, avoid, Gs), s') \<Rightarrow>
          (case route_on e (heap s' Gs) (start_lat request, start_lon request)
                  (end_lat request, end_lon request) of
             None \<Rightarrow> None
           | Some (Inl err) \<Rightarrow> Some (Inl err, s')
           | Some (Inr (sn, en, path)) \<Rightarrow>
               (case coords_of (heap s' G) path of
                  Inl err \<Rightarrow> Some (Inl err, s')
                | Inr coords \<Rightarrow>
                    Some (Inr \<lparr>plan_G = G, nodes_to_avoid = avoid, G_safe = Gs,
                               start_node = sn, end_node = en,
                               safe_route_nodes = path, route_coords = coords\<rparr>,
                          s'))))"

text \<open>The two handlers: \<^verbatim>\<open>NetworkXNoPath\<close> becomes 404, every other exception 500.\<close>

fun handler :: "exn \<Rightarrow> exn" where
  "handler (NetworkXNoPath m) = HTTPException 404 ''Could not find a safe path.''"
| "handler err = HTTPException 500 (''An internal server error occurred: '' @ exn_str err)"

definition calculate_route :: "env \<Rightarrow> server_state \<Rightarrow> RouteRequest
    \<Rightarrow> ((exn + (real \<times> real) list) \<times> server_state) option" where
  "calculate_route e s request =
     (case calculate_route_try e s request of
        None \<Rightarrow> None
      | Some (Inl err, s') \<Rightarrow> Some (Inl (handler err), s')
      | Some (Inr p, s') \<Rightarrow> Some (Inr (route_coords p), s'))"

section \<open>Paths and their length\<close>

text \<open>
  A path of \<open>G\<close> from \<open>u\<close> to \<open>v\<close>: a non-empty node list that starts at \<open>u\<close>, ends at
  \<open>v\<close> and follows edges.  Its length adds the weights of its steps.
\<close>

fun walk_ok :: "graph \<Rightarrow> node list \<Rightarrow> bool" where
  "walk_ok G [] = False"
| "walk_ok G [v] = True"
| "walk_ok G (u # v # rest) = (v \<in> set (neighbors G u) \<and> walk_ok G (v # rest))"

definition is_path :: "graph \<Rightarrow> node \<Rightarrow> node list \<Rightarrow> node \<Rightarrow> bool" where
  "is_path G u p v = (p \<noteq> [] \<and> hd p = u \<and> last p = v \<and> walk_ok G p)"

fun path_length :: "graph \<Rightarrow> node list \<Rightarrow> real" where
  "path_length G (u # v # rest) = weight G u v + path_length G (v # rest)"
| "path_length G p = 0"

definition nonneg_lengths :: "graph \<Rightarrow> bool" where
  "nonneg_lengths G = list_all (\<lambda>(a, b, l). 0 \<le> l) (gedges G)"

section \<open>A sample network\<close>

text \<open>
  Six nodes: the line 1 - 2 - 3 - 4 - 5 along latitude 0 and node 6 north of node 3, joined
  to 2 and 4.  One fire of 2015 in CA sits on node 3; the request goes from node 1 to
  node 5.  The sample formatter keeps only the sign of a number.
\<close>

definition demo_graph :: graph where
  "demo_graph =
     \<lparr>gnodes = [(1, 0, 0), (2, 0.01, 0), (3, 0.02, 0), (4, 0.03, 0), (5, 0.04, 0), (6, 0.02, 0.01)],
      gedges = [(1, 2, 1000), (2, 1, 1000), (2, 3, 1100), (3, 2, 1100), (3, 4, 1100), (4, 3, 1100),
                (4, 5, 1000), (5, 4, 1000), (2, 6, 1500), (6, 2, 1500), (6, 4, 1500), (4, 6, 1500)]\<rparr>"

definition demo_env :: env where
  "demo_env =
     \<lparr>fire_db = (\<lambda>year st. if year = 2015 \<and> st = ''CA'' then Inr [(2015, ''CA'', 0, 0.02, 10)] else Inr []),
      graph_from_bbox = (\<lambda>north south east west. Inr demo_graph),
      metric = (\<lambda>(x, y) (X, Y). (x - X)\<^sup>2 + (y - Y)\<^sup>2),
      fmt4 = (\<lambda>r. if r < 0 then ''-'' else ''+'')\<rparr>"

definition demo_state :: server_state where
  "demo_state =
     \<lparr>graph_cache = Map.empty, wildfire_data_cache = Map.empty,
      heap = (\<lambda>a. \<lparr>gnodes = [], gedges = []\<rparr>), next_addr = 0\<rparr>"

definition demo_request :: RouteRequest where
  "demo_request = \<lparr>start_lat = 0, start_lon = 0, end_lat = 0, end_lon = 0.04\<rparr>"

definition demo_plan :: plan where
  "demo_plan =
     \<lparr>plan_G = 0, nodes_to_avoid = {3}, G_safe = 1, start_node = 1, end_node = 5,
      safe_route_nodes = [1, 2, 6, 4, 5],
      route_coords = [(0, 0), (0, 0.01), (0.01, 0.02), (0, 0.03), (0, 0.04)]\<rparr>"

definition demo_env_empty :: env where
  "demo_env_empty = demo_env\<lparr>fire_db := (\<lambda>year st. Inr [])\<rparr>"

definition demo_env_down :: env where
  "demo_env_down = demo_env\<lparr>fire_db := (\<lambda>year st. Inl (ProviderError ''unable to open database file''))\<rparr>"

definition demo_bad_request :: RouteRequest where
  "demo_bad_request = \<lparr>start_lat = 100, start_lon = 0, end_lat = 100, end_lon = 0.04\<rparr>"

text \<open>
  Further sample data: a state whose cache holds the network, a fire far outside the
  box, a request that starts next to the fire, and a hazard source that differs from
  the sample one outside (2015, CA).
\<close>

definition demo_state_warm :: server_state where
  "demo_state_warm =
     \<lparr>graph_cache = [''+---+--'' \<mapsto> 0], wildfire_data_cache = Map.empty,
      heap = (\<lambda>a. if a = 0 then demo_graph else \<lparr>gnodes = [], gedges = []\<rparr>), next_addr = 1\<rparr>"

definition demo_fire :: fire where
  "demo_fire = \<lparr>FIRE_YEAR = 2015, state = ''CA'', latitude = 0, longitude = 0.02, fire_size = 10,
                 confidence = 90, bright_ti4 = 330\<rparr>"

definition demo_far_fire :: fire where
  "demo_far_fire = \<lparr>FIRE_YEAR = 2015, state = ''CA'', latitude = 50, longitude = 50, fire_size = 10,
                     confidence = 90, bright_ti4 = 330\<rparr>"

definition demo_request_at_fire :: RouteRequest where
  "demo_request_at_fire = \<lparr>start_lat = 0, start_lon = 0.019, end_lat = 0, end_lon = 0.04\<rparr>"

definition demo_env_other :: env where
  "demo_env_other =
     demo_env\<lparr>fire_db := (\<lambda>year st. if year = 2015 \<and> st = ''CA'' then Inr [(2015, ''CA'', 0, 0.02, 10)]
                                      else Inr [(year, st, 0, 0.03, 5)])\<rparr>"

text \<open>The safe graph of the sample, and a line network without the bypass node 6.\<close>

definition demo_safe_graph :: graph where
  "demo_safe_graph = remove_nodes_from demo_graph {3}"

definition demo_line_graph :: graph where
  "demo_line_graph =
     \<lparr>gnodes = [(1, 0, 0), (2, 0.01, 0), (3, 0.02, 0), (4, 0.03, 0), (5, 0.04, 0)],
      gedges = [(1, 2, 1000), (2, 1, 1000), (2, 3, 1100), (3, 2, 1100), (3, 4, 1100), (4, 3, 1100),
                (4, 5, 1000), (5, 4, 1000)]\<rparr>"

definition demo_line_safe :: graph where
  "demo_line_safe =
     \<lparr>gnodes = [(1, 0, 0), (2, 0.01, 0), (4, 0.03, 0), (5, 0.04, 0)],
      gedges = [(1, 2, 1000), (2, 1, 1000), (4, 5, 1000), (5, 4, 1000)]\<rparr>"

definition demo_env_line :: env where
  "demo_env_line = demo_env\<lparr>graph_from_bbox := (\<lambda>north south east west. Inr demo_line_graph)\<rparr>"

section \<open>Notions used by the properties\<close>

text \<open>A state is well formed when the cache refers to allocated graph objects only.\<close>

definition wf_state :: "server_state \<Rightarrow> bool" where
  "wf_state s = (\<forall>k a. graph_cache s k = Some a \<longrightarrow> a < next_addr s)"

text \<open>\<open>n\<close> is a node of \<open>G\<close> at least as near to the point (X, Y) as every node of \<open>G\<close>.\<close>

definition is_nearest :: "env \<Rightarrow> graph \<Rightarrow> node \<Rightarrow> real \<Rightarrow> real \<Rightarrow> bool" where
  "is_nearest e G n X Y =
     (\<exists>x y. (n, x, y) \<in> set (gnodes G)
        \<and> (\<forall>(i, x', y') \<in> set (gnodes G). metric e (x, y) (X, Y) \<le> metric e (x', y') (X, Y)))"

section \<open>Notions used by the proofs\<close>

text \<open>
  The components of a queue entry and of a fringe entry, the parent chains of the
  explored nodes, and the invariants of the two searches.  \<open>xdist\<close> is the cost with
  which a node was explored; the set \<open>R\<close> of an invariant holds the edges of the node
  being expanded that the inner loop has not handled yet, and \<open>m\<close> is the cost of the
  last node taken from the queue.
\<close>

inductive chain :: "(node \<rightharpoonup> node option) \<Rightarrow> node \<Rightarrow> node list \<Rightarrow> bool" for X where
  root: "X v = Some None \<Longrightarrow> chain X v [v]"
| link: "X v = Some (Some u) \<Longrightarrow> chain X u p \<Longrightarrow> chain X v (p @ [v])"

fun qprio :: "qentry \<Rightarrow> real" where "qprio (pr, k, v, d, par) = pr"

fun qcnt :: "qentry \<Rightarrow> nat" where "qcnt (pr, k, v, d, par) = k"

fun qnode :: "qentry \<Rightarrow> node" where "qnode (pr, k, v, d, par) = v"

fun qdist :: "qentry \<Rightarrow> real" where "qdist (pr, k, v, d, par) = d"

fun qparent :: "qentry \<Rightarrow> node option" where "qparent (pr, k, v, d, par) = par"

definition xdist :: "node \<Rightarrow> (node \<rightharpoonup> real \<times> real) \<Rightarrow> node \<Rightarrow> real" where
  "xdist s E v = (if v = s then 0 else case E v of None \<Rightarrow> 0 | Some (q, h) \<Rightarrow> q)"

definition inv_explored :: "graph \<Rightarrow> node \<Rightarrow> node \<Rightarrow> (node \<rightharpoonup> real \<times> real) \<Rightarrow> (node \<rightharpoonup> node option) \<Rightarrow> real \<Rightarrow> bool" where
  "inv_explored G s t E X m \<longleftrightarrow>
     X s = Some None \<and> X t = None
     \<and> (\<forall>v. X v \<noteq> None \<longrightarrow> v \<noteq> s \<longrightarrow> E v \<noteq> None)
     \<and> (\<forall>v. X v \<noteq> None \<longrightarrow> (\<exists>p. chain X v p \<and> is_path G s p v \<and> path_length G p = xdist s E v))
     \<and> (\<forall>v p. X v \<noteq> None \<longrightarrow> is_path G s p v \<longrightarrow> xdist s E v \<le> path_length G p)
     \<and> (\<forall>v. X v \<noteq> None \<longrightarrow> xdist s E v \<le> m)"

definition inv_entry :: "graph \<Rightarrow> node \<Rightarrow> (node \<rightharpoonup> real \<times> real) \<Rightarrow> (node \<rightharpoonup> node option) \<Rightarrow> real \<Rightarrow> nat \<Rightarrow> qentry \<Rightarrow> bool" where
  "inv_entry G s E X m c e \<longleftrightarrow>
     qprio e = qdist e \<and> qcnt e < c \<and> m \<le> qdist e
     \<and> (\<exists>u. qparent e = Some u \<and> X u \<noteq> None \<and> qnode e \<in> set (neighbors G u)
            \<and> qdist e = xdist s E u + weight G u (qnode e))
     \<and> (\<exists>q h. E (qnode e) = Some (q, h) \<and> q \<le> qdist e)"

definition inv_queue :: "graph \<Rightarrow> node \<Rightarrow> (node \<rightharpoonup> real \<times> real) \<Rightarrow> (node \<rightharpoonup> node option) \<Rightarrow> real \<Rightarrow> qentry list \<Rightarrow> nat \<Rightarrow> bool" where
  "inv_queue G s E X m Q c \<longleftrightarrow>
     (\<forall>e \<in> set Q. inv_entry G s E X m c e) \<and> distinct Q
     \<and> (\<forall>e1 \<in> set Q. \<forall>e2 \<in> set Q. qnode e1 = qnode e2 \<longrightarrow> qdist e1 = qdist e2 \<longrightarrow> e1 = e2)"

definition inv_enq :: "node \<Rightarrow> (node \<rightharpoonup> real \<times> real) \<Rightarrow> (node \<rightharpoonup> node option) \<Rightarrow> qentry list \<Rightarrow> bool" where
  "inv_enq s E X Q \<longleftrightarrow>
     (\<forall>v q h. E v = Some (q, h) \<longrightarrow>
        h = 0
        \<and> (X v = None \<longrightarrow> (\<exists>e \<in> set Q. qnode e = v \<and> qdist e = q))
        \<and> (X v \<noteq> None \<longrightarrow> v \<noteq> s \<longrightarrow> (\<forall>e \<in> set Q. qnode e = v \<longrightarrow> q < qdist e)))"

definition inv_closed :: "graph \<Rightarrow> node \<Rightarrow> (node \<rightharpoonup> real \<times> real) \<Rightarrow> (node \<rightharpoonup> node option) \<Rightarrow> (node \<times> node) set \<Rightarrow> bool" where
  "inv_closed G s E X R \<longleftrightarrow>
     (\<forall>x u. X x \<noteq> None \<longrightarrow> u \<in> set (neighbors G x) \<longrightarrow> (x, u) \<notin> R \<longrightarrow>
        (\<exists>q h. E u = Some (q, h) \<and> q \<le> xdist s E x + weight G x u))"

definition ainv :: "graph \<Rightarrow> node \<Rightarrow> node \<Rightarrow> (node \<times> node) set \<Rightarrow> real \<Rightarrow> qentry list
    \<Rightarrow> (node \<rightharpoonup> real \<times> real) \<Rightarrow> (node \<rightharpoonup> node option) \<Rightarrow> nat \<Rightarrow> bool" where
  "ainv G s t R m Q E X c \<longleftrightarrow>
     inv_explored G s t E X m \<and> inv_queue G s E X m Q c \<and> inv_enq s E X Q \<and> inv_closed G s E X R"

definition amu :: "graph \<Rightarrow> node \<Rightarrow> qentry list \<Rightarrow> (node \<rightharpoonup> node option) \<Rightarrow> nat" where
  "amu G s Q X = length Q + (\<Sum>x \<in> insert s (targets G) - {x. X x \<noteq> None}. length (neighbors G x))"

definition astar_post :: "graph \<Rightarrow> node \<Rightarrow> node \<Rightarrow> string \<Rightarrow> exn + node list \<Rightarrow> bool" where
  "astar_post G s t msg r \<longleftrightarrow>
     (r = Inl (NetworkXNoPath msg) \<and> (\<forall>p. \<not> is_path G s p t))
     \<or> (\<exists>path. r = Inr path \<and> is_path G s path t
           \<and> (\<forall>p. is_path G s p t \<longrightarrow> path_length G path \<le> path_length G p))"

text \<open>
  The search behind \<^verbatim>\<open>ego_graph\<close>: on a graph whose lengths are not negative and for
  a radius that is not negative it ends without the "contradictory paths" error, and the
  nodes it reaches are those with a path from the centre of length at most the radius.
\<close>

fun fdist :: "fentry \<Rightarrow> real" where "fdist (d, k, v) = d"

fun fnode :: "fentry \<Rightarrow> node" where "fnode (d, k, v) = v"

definition dinv :: "graph \<Rightarrow> node \<Rightarrow> real \<Rightarrow> (node \<times> node) set \<Rightarrow> real
    \<Rightarrow> (node \<rightharpoonup> real) \<Rightarrow> (node \<rightharpoonup> real) \<Rightarrow> fentry list \<Rightarrow> bool" where
  "dinv G s cutoff R m dst seen fringe \<longleftrightarrow>
     dst s = Some 0
     \<and> (\<forall>v d. dst v = Some d \<longrightarrow>
           d \<le> m \<and> d \<le> cutoff \<and> (\<exists>p. is_path G s p v \<and> path_length G p = d))
     \<and> (\<forall>e \<in> set fringe.
           m \<le> fdist e \<and> fdist e \<le> cutoff
           \<and> (\<exists>p. is_path G s p (fnode e) \<and> path_length G p = fdist e)
           \<and> (\<exists>sv. seen (fnode e) = Some sv \<and> sv \<le> fdist e))
     \<and> (\<forall>v sv. seen v = Some sv \<longrightarrow> dst v = None \<longrightarrow> (\<exists>e \<in> set fringe. fnode e = v \<and> fdist e = sv))
     \<and> (\<forall>u du v. dst u = Some du \<longrightarrow> v \<in> set (neighbors G u) \<longrightarrow> (u, v) \<notin> R
           \<longrightarrow> du + weight G u v \<le> cutoff
           \<longrightarrow> (\<exists>dv. dst v = Some dv \<and> dv \<le> du + weight G u v)
               \<or> (dst v = None \<and> (\<exists>sv. seen v = Some sv \<and> sv \<le> du + weight G u v)))"

text \<open>What the final distances satisfy when the loop ends.\<close>

definition dfinal :: "graph \<Rightarrow> node \<Rightarrow> real \<Rightarrow> (node \<rightharpoonup> real) \<Rightarrow> bool" where
  "dfinal G s cutoff dst \<longleftrightarrow>
     dst s = Some 0
     \<and> (\<forall>v d. dst v = Some d \<longrightarrow> d \<le> cutoff \<and> (\<exists>p. is_path G s p v \<and> path_length G p = d))
     \<and> (\<forall>u du v. dst u = Some du \<longrightarrow> v \<in> set (neighbors G u) \<longrightarrow> du + weight G u v \<le> cutoff
           \<longrightarrow> (\<exists>dv. dst v = Some dv \<and> dv \<le> du + weight G u v))"

section \<open>Termination of the bounded search\<close>

lemma heap_min_in: "heap_min m ys \<in> set (m # ys)"
  by (induction ys arbitrary: m) auto

lemma set_nub: "set (nub xs) = set xs"
  by (induction xs rule: nub.induct) auto

lemma neighbors_targets: "set (neighbors G v) \<subseteq> targets G"
  by (force simp: neighbors_def targets_def set_nub)

lemma fnodes_append: "fnodes (fringe @ [(d, k, u)]) = insert u (fnodes fringe)"
  by (auto simp: fnodes_def)

lemma fnodes_remove1: "fnodes (remove1 e fringe) \<subseteq> fnodes fringe"
  by (simp add: fnodes_def image_mono set_remove1_subset)

lemma relax_fnodes:
  "relax G cutoff v dv dst us (seen, fringe, c) = Inr (seen', fringe', c')
     \<Longrightarrow> fnodes fringe' \<subseteq> fnodes fringe \<union> set us"
proof (induction us arbitrary: seen fringe c)
  case Nil
  then show ?case by simp
next
  case (Cons u us)
  from Cons.prems consider
      (same) "relax G cutoff v dv dst us (seen, fringe, c) = Inr (seen', fringe', c')"
    | (push) "relax G cutoff v dv dst us
                (seen(u \<mapsto> dv + weight G v u), fringe @ [(dv + weight G v u, c, u)], Suc c)
              = Inr (seen', fringe', c')"
    by (auto simp: Let_def split: if_splits option.splits)
  then show ?case
  proof cases
    case same
    from Cons.IH [OF same] show ?thesis by auto
  next
    case push
    from Cons.IH [OF push] show ?thesis by (auto simp: fnodes_append)
  qed
qed

lemma finite_fnodes_targets: "finite (fnodes fringe \<union> targets G - D)"
  by (simp add: fnodes_def targets_def)

lemma dijkstra_skip_measure:
  assumes "e \<in> set fringe"
  shows "card (fnodes (remove1 e fringe) \<union> targets G - D) \<le> card (fnodes fringe \<union> targets G - D)"
    and "length (remove1 e fringe) < length fringe"
proof -
  have "fnodes (remove1 e fringe) \<union> targets G - D \<subseteq> fnodes fringe \<union> targets G - D"
    using fnodes_remove1 [of e fringe] by blast
  then show "card (fnodes (remove1 e fringe) \<union> targets G - D) \<le> card (fnodes fringe \<union> targets G - D)"
    by (rule card_mono [OF finite_fnodes_targets])
  show "length (remove1 e fringe) < length fringe"
    using assms length_pos_if_in_set [OF assms] by (simp add: length_remove1)
qed

lemma dijkstra_settle_measure:
  assumes mem: "(d, k, v) \<in> set fringe" and new: "dst v = None"
    and sub: "fnodes fringe' \<subseteq> fnodes (remove1 (d, k, v) fringe) \<union> set (neighbors G v)"
  shows "card (fnodes fringe' \<union> targets G - dom (dst(v \<mapsto> d)))
       < card (fnodes fringe \<union> targets G - dom dst)"
proof -
  from mem have vin: "v \<in> fnodes fringe" by (force simp: fnodes_def)
  from sub fnodes_remove1 [of "(d, k, v)" fringe] neighbors_targets [of G v]
  have "fnodes fringe' \<subseteq> fnodes fringe \<union> targets G" by blast
  with vin new have "fnodes fringe' \<union> targets G - dom (dst(v \<mapsto> d))
      \<subset> fnodes fringe \<union> targets G - dom dst"
    by auto
  then show ?thesis
    by (rule psubset_card_mono [OF finite_fnodes_targets])
qed

termination dijkstra_loop
proof (relation "measures [\<lambda>(G, cutoff, dst, seen, fringe, c). card (fnodes fringe \<union> targets G - dom dst),
                           \<lambda>(G, cutoff, dst, seen, fringe, c). length fringe]", goal_cases)
  case 1
  show ?case by simp
next
  case (2 G cutoff dst seen fringe c x xs d kv k v)
  then have mem: "(d, k, v) \<in> set fringe"
    using heap_min_in [of x xs] by simp
  from dijkstra_skip_measure [OF mem] show ?case by (auto simp: le_less)
next
  case (3 G cutoff dst seen fringe c x xs d kv k v res seen' fc fringe' c')
  then have mem: "(d, k, v) \<in> set fringe"
    using heap_min_in [of x xs] by simp
  from 3 have rel: "relax G cutoff v d (dst(v \<mapsto> d)) (neighbors G v) (seen, remove1 (d, k, v) fringe, c)
      = Inr (seen', fringe', c')"
    by simp
  from 3 have new: "dst v = None" by simp
  from dijkstra_settle_measure [of d k v fringe dst fringe' G, OF mem new relax_fnodes [OF rel]]
  show ?case by simp
qed

declare dijkstra_loop.simps [simp del]

section \<open>The sample call\<close>

lemma demo_run:
  "map_option fst (calculate_route_try demo_env demo_state demo_request) = Some (Inr demo_plan)"
  by code_simp

section \<open>Correctness of the search\<close>

text \<open>
  The search of \<^verbatim>\<open>astar_path\<close> with the zero heuristic: on a graph whose lengths are
  not negative it returns, with a shortest path when the target can be reached and with
  \<^verbatim>\<open>NetworkXNoPath\<close> when it cannot.  On any graph a returned path stays within the
  source and the targets of edges.
\<close>

subsection \<open>Paths\<close>

lemma walk_ok_snoc:
  "walk_ok G (p @ [v]) \<longleftrightarrow> p = [] \<or> (walk_ok G p \<and> v \<in> set (neighbors G (last p)))"
  by (induction G p rule: walk_ok.induct) auto

lemma path_length_snoc:
  "p \<noteq> [] \<Longrightarrow> path_length G (p @ [v]) = path_length G p + weight G (last p) v"
  by (induction G p rule: path_length.induct) auto

lemma is_path_single: "is_path G u [u] u"
  by (simp add: is_path_def)

lemma is_path_snoc:
  assumes "is_path G s p u" and "v \<in> set (neighbors G u)"
  shows "is_path G s (p @ [v]) v"
  using assms by (auto simp: is_path_def walk_ok_snoc)

lemma is_path_length_snoc:
  assumes "is_path G s p u"
  shows "path_length G (p @ [v]) = path_length G p + weight G u v"
  using assms by (auto simp: is_path_def path_length_snoc)

lemma is_path_cases:
  assumes "is_path G s p v"
  shows "(p = [s] \<and> v = s) \<or> (\<exists>p' u. p = p' @ [v] \<and> is_path G s p' u \<and> v \<in> set (neighbors G u))"
proof (cases p rule: rev_cases)
  case Nil
  with assms show ?thesis by (simp add: is_path_def)
next
  case (snoc p' w)
  show ?thesis
  proof (cases "p' = []")
    case True
    with snoc assms show ?thesis by (auto simp: is_path_def)
  next
    case False
    with snoc assms have "is_path G s p' (last p')" "w = v" "v \<in> set (neighbors G (last p'))"
      by (auto simp: is_path_def walk_ok_snoc)
    with snoc show ?thesis by blast
  qed
qed

lemma min_list_in:
  fixes xs :: "real list"
  assumes "x \<in> set xs"
  shows "min_list xs \<in> set xs"
proof -
  from assms have ne: "xs \<noteq> []" by auto
  then have "Min (set xs) \<in> set xs" by simp
  with ne show ?thesis by (simp add: min_list_Min)
qed

lemma weight_nonneg:
  assumes "nonneg_lengths G" and "v \<in> set (neighbors G u)"
  shows "0 \<le> weight G u v"
proof -
  let ?ls = "map (\<lambda>(a, b, l). l) (filter (\<lambda>(a, b, l). a = u \<and> b = v) (gedges G))"
  from assms(2) obtain l0 where "(u, v, l0) \<in> set (gedges G)"
    by (auto simp: neighbors_def set_nub)
  then have "l0 \<in> set ?ls" by force
  then have "min_list ?ls \<in> set ?ls" by (rule min_list_in)
  then obtain a b l where "(a, b, l) \<in> set (gedges G)" "min_list ?ls = l" by auto
  with assms(1) show ?thesis
    by (auto simp: weight_def nonneg_lengths_def list_all_iff)
qed

lemma path_length_nonneg:
  assumes "nonneg_lengths G" and "walk_ok G p"
  shows "0 \<le> path_length G p"
  using assms
proof (induction G p rule: walk_ok.induct)
  case (3 G u v rest)
  from "3.prems" have e: "v \<in> set (neighbors G u)" and w: "walk_ok G (v # rest)" by simp_all
  from "3.IH" [OF "3.prems"(1) w] weight_nonneg [OF "3.prems"(1) e] show ?case by simp
qed simp_all

lemma is_path_length_nonneg:
  "nonneg_lengths G \<Longrightarrow> is_path G s p v \<Longrightarrow> 0 \<le> path_length G p"
  by (simp add: is_path_def path_length_nonneg)

text \<open>A path that leaves a set of nodes has a first step out of it.\<close>

lemma path_crossing:
  assumes nn: "nonneg_lengths G" and "is_path G s p v" and "s \<in> S" and "v \<notin> S"
  shows "\<exists>p1 x y. is_path G s p1 x \<and> x \<in> S \<and> y \<notin> S \<and> y \<in> set (neighbors G x)
            \<and> path_length G p1 + weight G x y \<le> path_length G p"
  using assms(2,4)
proof (induction p arbitrary: v rule: rev_induct)
  case Nil
  then show ?case by (simp add: is_path_def)
next
  case (snoc w p')
  from is_path_cases [OF snoc.prems(1)] \<open>s \<in> S\<close> snoc.prems(2)
  obtain u where p': "is_path G s p' u" and wv: "w = v" and e: "v \<in> set (neighbors G u)"
    by auto
  have len: "path_length G (p' @ [v]) = path_length G p' + weight G u v"
    by (rule is_path_length_snoc [OF p'])
  show ?case
  proof (cases "u \<in> S")
    case True
    with p' e snoc.prems(2) len wv show ?thesis by (intro exI [of _ p'] exI [of _ u] exI [of _ v]) simp
  next
    case False
    from snoc.IH [OF p' False] obtain p1 x y where
      "is_path G s p1 x" "x \<in> S" "y \<notin> S" "y \<in> set (neighbors G x)"
      "path_length G p1 + weight G x y \<le> path_length G p'"
      by blast
    moreover have "path_length G p' \<le> path_length G (p' @ [w])"
      using len wv weight_nonneg [OF nn e] by simp
    ultimately show ?thesis by (intro exI [of _ p1] exI [of _ x] exI [of _ y]) simp
  qed
qed

subsection \<open>The heap\<close>

lemma heap_min_prio: "\<forall>y \<in> set (m # ys). fst (heap_min m ys) \<le> fst y"
proof (induction ys arbitrary: m)
  case Nil
  show ?case by simp
next
  case (Cons y ys)
  let ?m' = "if heap_le m y then m else y"
  have a: "fst ?m' \<le> fst m" "fst ?m' \<le> fst y"
    by (cases m; cases y; auto)+
  from Cons [of ?m'] have "\<forall>z \<in> set (?m' # ys). fst (heap_min ?m' ys) \<le> fst z" .
  with a show ?case by (auto intro: order_trans)
qed

subsection \<open>Parent chains\<close>

lemma build_path_chain:
  assumes "chain X v p"
  shows "build_path X (Some v) acc = Some (Inr (p @ rev acc))"
  using assms
proof (induction arbitrary: acc)
  case (root v)
  then show ?case by (simp add: build_path.simps)
next
  case (link v u p)
  from link.hyps(1) have "build_path X (Some v) acc = build_path X (Some u) (acc @ [v])"
    by (subst build_path.simps) simp
  with link.IH [of "acc @ [v]"] show ?case by simp
qed

lemma chain_extend:
  assumes "chain X v p" and "X w = None"
  shows "chain (X(w \<mapsto> par)) v p"
  using assms
proof (induction)
  case (root v)
  then show ?case by (intro chain.root) auto
next
  case (link v u p)
  then show ?case by (intro chain.link [of _ _ u]) auto
qed

lemma build_path_nodes_aux:
  assumes "build_path X nd acc = Some r"
  shows "\<forall>path. r = Inr path \<longrightarrow> set path \<subseteq> set acc \<union> dom X"
proof (rule build_path.raw_induct [OF _ assms], goal_cases)
  case (1 build X nd acc r)
  show ?case
  proof (cases nd)
    case None
    with 1(2) show ?thesis by auto
  next
    case (Some n)
    show ?thesis
    proof (cases "X n")
      case None
      with Some 1(2) show ?thesis by auto
    next
      case (Some par)
      with \<open>nd = Some n\<close> 1(2) have "build X par (acc @ [n]) = Some r" by simp
      from 1(1) [OF this] Some show ?thesis by auto
    qed
  qed
qed

lemma build_path_nodes:
  "build_path X nd acc = Some (Inr path) \<Longrightarrow> set path \<subseteq> set acc \<union> dom X"
  using build_path_nodes_aux by blast

subsection \<open>Invariant of the search\<close>

lemma ainvD:
  assumes "ainv G s t R m Q E X c"
  shows "inv_explored G s t E X m" "inv_queue G s E X m Q c" "inv_enq s E X Q" "inv_closed G s E X R"
  using assms by (simp_all add: ainv_def)

lemma inv_queue_entry: "inv_queue G s E X m Q c \<Longrightarrow> e \<in> set Q \<Longrightarrow> inv_entry G s E X m c e"
  by (simp add: inv_queue_def)

subsubsection \<open>Popping an entry of an explored node\<close>

lemma stale_true:
  assumes inv: "ainv G s t R m Q E X c" and mem: "e \<in> set Q" and ex: "X (qnode e) \<noteq> None"
  shows "astar_stale E X (qnode e) (qdist e) = Inr True"
proof (cases "X (qnode e)")
  case None
  with ex show ?thesis by simp
next
  case (Some par)
  show ?thesis
  proof (cases par)
    case None
    with Some show ?thesis by (simp add: astar_stale_def)
  next
    case (Some u)
    with \<open>X (qnode e) = Some par\<close> ainvD(1) [OF inv] have ns: "qnode e \<noteq> s"
      by (auto simp: inv_explored_def)
    from inv_queue_entry [OF ainvD(2) [OF inv] mem] obtain q h where
      q: "E (qnode e) = Some (q, h)" by (auto simp: inv_entry_def)
    from ainvD(3) [OF inv] q ex ns mem have "q < qdist e"
      unfolding inv_enq_def by blast
    with q Some \<open>X (qnode e) = Some par\<close> show ?thesis by (simp add: astar_stale_def)
  qed
qed

lemma stale_false: "X v = None \<Longrightarrow> astar_stale E X v d = Inr False"
  by (simp add: astar_stale_def)

lemma stale_skip:
  assumes inv: "ainv G s t R m Q E X c" and mem: "e \<in> set Q" and ex: "X (qnode e) \<noteq> None"
  shows "ainv G s t R m (remove1 e Q) E X c"
proof -
  have sub: "set (remove1 e Q) \<subseteq> set Q" by (rule set_remove1_subset)
  from ainvD(2) [OF inv] sub have q: "inv_queue G s E X m (remove1 e Q) c"
    unfolding inv_queue_def by (auto intro: distinct_remove1)
  from ainvD(2) [OF inv] have d: "distinct Q" by (simp add: inv_queue_def)
  have "inv_enq s E X (remove1 e Q)"
    unfolding inv_enq_def
  proof (intro allI impI conjI)
    fix v q h assume E: "E v = Some (q, h)"
    from ainvD(3) [OF inv] E show "h = 0" unfolding inv_enq_def by blast
    {
      assume "X v = None"
      with ainvD(3) [OF inv] E obtain e' where e': "e' \<in> set Q" "qnode e' = v" "qdist e' = q"
        unfolding inv_enq_def by blast
      with ex \<open>X v = None\<close> have "e' \<noteq> e" by auto
      with e' d have "e' \<in> set (remove1 e Q)" by simp
      with e' show "\<exists>e \<in> set (remove1 e Q). qnode e = v \<and> qdist e = q" by blast
    }
    {
      assume "X v \<noteq> None" "v \<noteq> s"
      with ainvD(3) [OF inv] E have "\<forall>e \<in> set Q. qnode e = v \<longrightarrow> q < qdist e"
        unfolding inv_enq_def by blast
      with sub show "\<forall>e \<in> set (remove1 e Q). qnode e = v \<longrightarrow> q < qdist e" by blast
    }
  qed
  with q ainvD(1,4) [OF inv] show ?thesis by (simp add: ainv_def)
qed

subsubsection \<open>Popping the least entry of an unexplored node\<close>

lemma popped_dist:
  assumes inv: "ainv G s t R m Q E X c" and mem: "e \<in> set Q"
    and least: "\<forall>e' \<in> set Q. qprio e \<le> qprio e'" and new: "X (qnode e) = None"
  shows "E (qnode e) = Some (qdist e, 0)"
proof -
  from inv_queue_entry [OF ainvD(2) [OF inv] mem] obtain q h where
    q: "E (qnode e) = Some (q, h)" "q \<le> qdist e" and pe: "qprio e = qdist e"
    by (auto simp: inv_entry_def)
  from ainvD(3) [OF inv] q(1) new obtain e' where
    h: "h = 0" and e': "e' \<in> set Q" "qnode e' = qnode e" "qdist e' = q"
    unfolding inv_enq_def by blast
  from inv_queue_entry [OF ainvD(2) [OF inv] e'(1)] have "qprio e' = qdist e'"
    by (simp add: inv_entry_def)
  with least e' pe have "qdist e \<le> q" by auto
  with q h show ?thesis by simp
qed

lemma popped_optimal:
  assumes nn: "nonneg_lengths G" and inv: "ainv G s t {} m Q E X c" and mem: "e \<in> set Q"
    and least: "\<forall>e' \<in> set Q. qprio e \<le> qprio e'" and new: "X (qnode e) = None"
    and path: "is_path G s p (qnode e)"
  shows "qdist e \<le> path_length G p"
proof -
  note ex = ainvD(1) [OF inv, unfolded inv_explored_def]
  from ex have "s \<in> {v. X v \<noteq> None}" by simp
  moreover from new have "qnode e \<notin> {v. X v \<noteq> None}" by simp
  ultimately obtain p1 x y where
    p1: "is_path G s p1 x" and x: "X x \<noteq> None" and y: "X y = None" and xy: "y \<in> set (neighbors G x)"
    and len: "path_length G p1 + weight G x y \<le> path_length G p"
    using path_crossing [OF nn path, of "{v. X v \<noteq> None}"] by auto
  from ainvD(4) [OF inv] x xy obtain q h where q: "E y = Some (q, h)" "q \<le> xdist s E x + weight G x y"
    unfolding inv_closed_def by blast
  from ex x p1 have "xdist s E x \<le> path_length G p1" by blast
  with q len have qp: "q \<le> path_length G p" by simp
  from ainvD(3) [OF inv] q(1) y obtain e' where e': "e' \<in> set Q" "qdist e' = q"
    unfolding inv_enq_def by blast
  from inv_queue_entry [OF ainvD(2) [OF inv] e'(1)] have "qprio e' = qdist e'"
    by (simp add: inv_entry_def)
  moreover from inv_queue_entry [OF ainvD(2) [OF inv] mem] have "qprio e = qdist e"
    by (simp add: inv_entry_def)
  ultimately have "qdist e \<le> q" using least e' by auto
  with qp show ?thesis by simp
qed

lemma explore_inv:
  assumes nn: "nonneg_lengths G" and inv: "ainv G s t {} m Q E X c" and mem: "e \<in> set Q"
    and least: "\<forall>e' \<in> set Q. qprio e \<le> qprio e'" and new: "X (qnode e) = None"
    and nt: "qnode e \<noteq> t"
  shows "ainv G s t ({qnode e} \<times> set (neighbors G (qnode e))) (qdist e) (remove1 e Q) E
           (X(qnode e \<mapsto> qparent e)) c"
    and "xdist s E (qnode e) = qdist e"
proof -
  let ?v = "qnode e" and ?d = "qdist e"
  let ?X = "X(?v \<mapsto> qparent e)"
  note ex = ainvD(1) [OF inv, unfolded inv_explored_def]
  note qu = ainvD(2) [OF inv]
  note en = ainvD(3) [OF inv, unfolded inv_enq_def]
  note cl = ainvD(4) [OF inv, unfolded inv_closed_def]
  from qu have dq: "distinct Q" by (simp add: inv_queue_def)
  from inv_queue_entry [OF qu mem] obtain u where
    pe: "qprio e = ?d" and md: "m \<le> ?d" and par: "qparent e = Some u" and xu: "X u \<noteq> None"
    and vu: "?v \<in> set (neighbors G u)" and du: "?d = xdist s E u + weight G u ?v"
    by (auto simp: inv_entry_def)
  have Ev: "E ?v = Some (?d, 0)" by (rule popped_dist [OF inv mem least new])
  from ex new have vs: "?v \<noteq> s" by auto
  from Ev vs show xv: "xdist s E ?v = ?d" by (simp add: xdist_def)
  have sub: "set (remove1 e Q) \<subseteq> set Q" by (rule set_remove1_subset)
  have rem: "\<And>e'. e' \<in> set (remove1 e Q) \<longleftrightarrow> e' \<in> set Q \<and> e' \<noteq> e"
    using dq by auto
  have prio: "\<And>e'. e' \<in> set Q \<Longrightarrow> ?d \<le> qdist e'"
  proof -
    fix e' assume e': "e' \<in> set Q"
    from inv_queue_entry [OF qu e'] have "qprio e' = qdist e'" by (simp add: inv_entry_def)
    with least e' pe show "?d \<le> qdist e'" by auto
  qed
  have chainX: "\<And>w p. chain X w p \<Longrightarrow> chain ?X w p"
    using chain_extend [of X _ _ "qnode e" "qparent e"] new by blast
  have A: "inv_explored G s t E ?X ?d"
    unfolding inv_explored_def
  proof (intro conjI allI impI)
    from ex vs show "?X s = Some None" by simp
    from ex nt show "?X t = None" by simp
  next
    fix w assume "?X w \<noteq> None" "w \<noteq> s"
    with ex Ev show "E w \<noteq> None" by (cases "w = ?v") auto
  next
    fix w assume w: "?X w \<noteq> None"
    show "\<exists>p. chain ?X w p \<and> is_path G s p w \<and> path_length G p = xdist s E w"
    proof (cases "w = ?v")
      case True
      from ex xu obtain pu where pu: "chain X u pu" "is_path G s pu u" "path_length G pu = xdist s E u"
        by blast
      have "chain ?X ?v (pu @ [?v])"
        by (rule chain.link [of _ _ u]) (use par chainX [OF pu(1)] in simp_all)
      moreover have "is_path G s (pu @ [?v]) ?v" by (rule is_path_snoc [OF pu(2) vu])
      moreover have "path_length G (pu @ [?v]) = xdist s E ?v"
        using is_path_length_snoc [OF pu(2), of ?v] pu(3) du xv by simp
      ultimately show ?thesis using True by blast
    next
      case False
      with w have "X w \<noteq> None" by simp
      with ex obtain p where "chain X w p" "is_path G s p w" "path_length G p = xdist s E w"
        by blast
      with chainX show ?thesis by blast
    qed
  next
    fix w p assume w: "?X w \<noteq> None" and p: "is_path G s p w"
    show "xdist s E w \<le> path_length G p"
    proof (cases "w = ?v")
      case True
      with popped_optimal [OF nn inv mem least new] p xv show ?thesis by simp
    next
      case False
      with w have "X w \<noteq> None" by simp
      with ex p show ?thesis by blast
    qed
  next
    fix w assume w: "?X w \<noteq> None"
    show "xdist s E w \<le> ?d"
    proof (cases "w = ?v")
      case True
      with xv show ?thesis by simp
    next
      case False
      with w have "X w \<noteq> None" by simp
      with ex have "xdist s E w \<le> m" by blast
      with md show ?thesis by simp
    qed
  qed
  have B: "inv_queue G s E ?X ?d (remove1 e Q) c"
    unfolding inv_queue_def
  proof (intro conjI ballI impI)
    fix e' assume "e' \<in> set (remove1 e Q)"
    with sub have e': "e' \<in> set Q" by blast
    from inv_queue_entry [OF qu e'] prio [OF e'] show "inv_entry G s E ?X ?d c e'"
      unfolding inv_entry_def by auto
  next
    from dq show "distinct (remove1 e Q)" by (rule distinct_remove1)
  next
    fix e1 e2 assume "e1 \<in> set (remove1 e Q)" "e2 \<in> set (remove1 e Q)"
      "qnode e1 = qnode e2" "qdist e1 = qdist e2"
    with sub qu show "e1 = e2" unfolding inv_queue_def by blast
  qed
  have C: "inv_enq s E ?X (remove1 e Q)"
    unfolding inv_enq_def
  proof (intro allI impI conjI)
    fix w q h assume Ew: "E w = Some (q, h)"
    from en Ew show "h = 0" by blast
    {
      assume "?X w = None"
      then have wv: "w \<noteq> ?v" and "X w = None" by (auto split: if_splits)
      with en Ew obtain e' where e': "e' \<in> set Q" "qnode e' = w" "qdist e' = q" by blast
      with wv have "e' \<noteq> e" by auto
      with e' rem show "\<exists>e \<in> set (remove1 e Q). qnode e = w \<and> qdist e = q" by blast
    }
    {
      assume w: "?X w \<noteq> None" "w \<noteq> s"
      show "\<forall>e' \<in> set (remove1 e Q). qnode e' = w \<longrightarrow> q < qdist e'"
      proof (intro ballI impI)
        fix e' assume "e' \<in> set (remove1 e Q)" and nw: "qnode e' = w"
        with rem have e': "e' \<in> set Q" "e' \<noteq> e" by auto
        show "q < qdist e'"
        proof (cases "w = ?v")
          case True
          with Ew Ev have q: "q = ?d" by simp
          from qu e' mem nw True have "qdist e' \<noteq> ?d"
            unfolding inv_queue_def by blast
          with prio [OF e'(1)] q show ?thesis by simp
        next
          case False
          with w have "X w \<noteq> None" by simp
          with en Ew w(2) e'(1) nw show ?thesis by blast
        qed
      qed
    }
  qed
  have D: "inv_closed G s E ?X ({?v} \<times> set (neighbors G ?v))"
    unfolding inv_closed_def
  proof (intro allI impI)
    fix x u' assume x: "?X x \<noteq> None" and u': "u' \<in> set (neighbors G x)"
      and nr: "(x, u') \<notin> {?v} \<times> set (neighbors G ?v)"
    from nr u' have "x \<noteq> ?v" by auto
    with x have "X x \<noteq> None" by simp
    with cl u' show "\<exists>q h. E u' = Some (q, h) \<and> q \<le> xdist s E x + weight G x u'" by blast
  qed
  from A B C D show "ainv G s t ({?v} \<times> set (neighbors G ?v)) ?d (remove1 e Q) E ?X c"
    by (simp add: ainv_def)
qed

lemma relax_keep:
  assumes inv: "ainv G s t R m Q E X c" and Eu: "E u = Some (q, h)"
    and le: "q \<le> xdist s E v + weight G v u" and sub: "R \<subseteq> insert (v, u) R'"
  shows "ainv G s t R' m Q E X c"
proof -
  note cl = ainvD(4) [OF inv, unfolded inv_closed_def]
  have "inv_closed G s E X R'"
    unfolding inv_closed_def
  proof (intro allI impI)
    fix x u' assume x: "X x \<noteq> None" and u': "u' \<in> set (neighbors G x)" and nr: "(x, u') \<notin> R'"
    show "\<exists>q h. E u' = Some (q, h) \<and> q \<le> xdist s E x + weight G x u'"
    proof (cases "(x, u') = (v, u)")
      case True
      with Eu le show ?thesis by auto
    next
      case False
      with nr sub have "(x, u') \<notin> R" by auto
      with cl x u' show ?thesis by blast
    qed
  qed
  with ainvD(1,2,3) [OF inv] show ?thesis by (simp add: ainv_def)
qed

lemma relax_push:
  assumes nn: "nonneg_lengths G" and inv: "ainv G s t R m Q E X c"
    and xv: "X v \<noteq> None" and dv: "xdist s E v = m" and uv: "u \<in> set (neighbors G v)"
    and push: "E u = None \<or> (\<exists>q h. E u = Some (q, h) \<and> m + weight G v u < q)"
    and sub: "R \<subseteq> insert (v, u) R'"
  shows "ainv G s t R' m (Q @ [(m + weight G v u + 0, c, u, m + weight G v u, Some v)])
           (E(u \<mapsto> (m + weight G v u, 0))) X (Suc c)"
    and "xdist s (E(u \<mapsto> (m + weight G v u, 0))) v = m"
proof -
  let ?nc = "m + weight G v u"
  let ?E = "E(u \<mapsto> (?nc, 0))"
  let ?new = "(?nc + 0, c, u, ?nc, Some v)"
  let ?Q = "Q @ [?new]"
  note ex = ainvD(1) [OF inv, unfolded inv_explored_def]
  note qu = ainvD(2) [OF inv]
  note en = ainvD(3) [OF inv, unfolded inv_enq_def]
  note cl = ainvD(4) [OF inv, unfolded inv_closed_def]
  have w0: "0 \<le> weight G v u" by (rule weight_nonneg [OF nn uv])
  have P1: "X u = None \<or> u = s"
  proof (rule ccontr)
    assume "\<not> (X u = None \<or> u = s)"
    then have xu: "X u \<noteq> None" and us: "u \<noteq> s" by simp_all
    with ex have "E u \<noteq> None" by blast
    with push obtain q h where q: "E u = Some (q, h)" "?nc < q" by auto
    with us have xq: "xdist s E u = q" by (simp add: xdist_def)
    from ex xv obtain pv where pv: "is_path G s pv v" "path_length G pv = xdist s E v" by blast
    have "is_path G s (pv @ [u]) u" by (rule is_path_snoc [OF pv(1) uv])
    with ex xu have "xdist s E u \<le> path_length G (pv @ [u])" by blast
    with is_path_length_snoc [OF pv(1), of u] pv(2) dv xq q(2) show False by simp
  qed
  have xd: "\<And>x. X x \<noteq> None \<Longrightarrow> xdist s ?E x = xdist s E x"
    using P1 by (auto simp: xdist_def)
  from xd [OF xv] dv show "xdist s ?E v = m" by simp
  have oldE: "\<And>e'. e' \<in> set Q \<Longrightarrow> qnode e' = u \<Longrightarrow> ?nc < qdist e'"
  proof -
    fix e' assume e': "e' \<in> set Q" "qnode e' = u"
    from inv_queue_entry [OF qu e'(1)] e'(2) obtain q h where q: "E u = Some (q, h)" "q \<le> qdist e'"
      by (auto simp: inv_entry_def)
    with push show "?nc < qdist e'" by auto
  qed
  have A: "inv_explored G s t ?E X m"
    unfolding inv_explored_def
  proof (intro conjI allI impI)
    from ex show "X s = Some None" "X t = None" by simp_all
  next
    fix w assume "X w \<noteq> None" "w \<noteq> s"
    with ex show "?E w \<noteq> None" by auto
  next
    fix w assume w: "X w \<noteq> None"
    with ex xd [OF w] show "\<exists>p. chain X w p \<and> is_path G s p w \<and> path_length G p = xdist s ?E w"
      by auto
  next
    fix w p assume w: "X w \<noteq> None" and "is_path G s p w"
    with ex xd [OF w] show "xdist s ?E w \<le> path_length G p" by auto
  next
    fix w assume w: "X w \<noteq> None"
    with ex xd [OF w] show "xdist s ?E w \<le> m" by auto
  qed
  have newentry: "inv_entry G s ?E X m (Suc c) ?new"
    unfolding inv_entry_def using w0 xv uv xd [OF xv] dv by auto
  have oldentry: "\<And>e'. e' \<in> set Q \<Longrightarrow> inv_entry G s ?E X m (Suc c) e'"
  proof -
    fix e' assume e': "e' \<in> set Q"
    from inv_queue_entry [OF qu e'] obtain u' q h where
      a: "qprio e' = qdist e'" "qcnt e' < c" "m \<le> qdist e'"
      and b: "qparent e' = Some u'" "X u' \<noteq> None" "qnode e' \<in> set (neighbors G u')"
        "qdist e' = xdist s E u' + weight G u' (qnode e')"
      and q: "E (qnode e') = Some (q, h)" "q \<le> qdist e'"
      by (auto simp: inv_entry_def)
    have "\<exists>q h. ?E (qnode e') = Some (q, h) \<and> q \<le> qdist e'"
    proof (cases "qnode e' = u")
      case True
      with oldE [OF e'] show ?thesis by auto
    next
      case False
      with q show ?thesis by auto
    qed
    with a b xd [OF b(2)] show "inv_entry G s ?E X m (Suc c) e'"
      unfolding inv_entry_def by auto
  qed
  have fresh: "?new \<notin> set Q"
  proof
    assume "?new \<in> set Q"
    from inv_queue_entry [OF qu this] show False by (simp add: inv_entry_def)
  qed
  have B: "inv_queue G s ?E X m ?Q (Suc c)"
    unfolding inv_queue_def
  proof (intro conjI ballI impI)
    fix e' assume "e' \<in> set ?Q"
    then have "e' = ?new \<or> e' \<in> set Q" by simp
    then show "inv_entry G s ?E X m (Suc c) e'"
      using newentry oldentry by blast
  next
    from qu fresh show "distinct ?Q" by (simp add: inv_queue_def)
  next
    fix e1 e2 assume e: "e1 \<in> set ?Q" "e2 \<in> set ?Q" and n: "qnode e1 = qnode e2" and d: "qdist e1 = qdist e2"
    show "e1 = e2"
    proof (cases "e1 = ?new")
      case True
      show ?thesis
      proof (cases "e2 = ?new")
        case True
        with \<open>e1 = ?new\<close> show ?thesis by simp
      next
        case False
        with e have "e2 \<in> set Q" by auto
        from oldE [OF this] True n d show ?thesis by auto
      qed
    next
      case False
      with e have e1: "e1 \<in> set Q" by auto
      show ?thesis
      proof (cases "e2 = ?new")
        case True
        with oldE [OF e1] n d show ?thesis by auto
      next
        case False
        with e have "e2 \<in> set Q" by auto
        with e1 n d qu show ?thesis unfolding inv_queue_def by blast
      qed
    qed
  qed
  have C: "inv_enq s ?E X ?Q"
    unfolding inv_enq_def
  proof (intro allI impI conjI)
    fix w q h assume Ew: "?E w = Some (q, h)"
    show "h = 0"
    proof (cases "w = u")
      case True
      with Ew show ?thesis by simp
    next
      case False
      with Ew en show ?thesis by auto
    qed
    {
      assume xw: "X w = None"
      show "\<exists>e \<in> set ?Q. qnode e = w \<and> qdist e = q"
      proof (cases "w = u")
        case True
        with Ew have "q = ?nc" by simp
        with True show ?thesis by auto
      next
        case False
        with Ew have "E w = Some (q, h)" by simp
        with en xw obtain e' where "e' \<in> set Q" "qnode e' = w" "qdist e' = q" by blast
        then show ?thesis by auto
      qed
    }
    {
      assume xw: "X w \<noteq> None" "w \<noteq> s"
      with P1 have wu: "w \<noteq> u" by auto
      with Ew have "E w = Some (q, h)" by simp
      with en xw have "\<forall>e \<in> set Q. qnode e = w \<longrightarrow> q < qdist e" by blast
      with wu show "\<forall>e \<in> set ?Q. qnode e = w \<longrightarrow> q < qdist e" by auto
    }
  qed
  have D: "inv_closed G s ?E X R'"
    unfolding inv_closed_def
  proof (intro allI impI)
    fix x u' assume x: "X x \<noteq> None" and u': "u' \<in> set (neighbors G x)" and nr: "(x, u') \<notin> R'"
    show "\<exists>q h. ?E u' = Some (q, h) \<and> q \<le> xdist s ?E x + weight G x u'"
    proof (cases "(x, u') = (v, u)")
      case True
      with xd [OF xv] dv show ?thesis by auto
    next
      case False
      with nr sub have "(x, u') \<notin> R" by auto
      with cl x u' obtain q h where q: "E u' = Some (q, h)" "q \<le> xdist s E x + weight G x u'"
        by blast
      show ?thesis
      proof (cases "u' = u")
        case True
        with q push have "?nc < q" by auto
        with q(2) True xd [OF x] show ?thesis by auto
      next
        case False
        with q xd [OF x] show ?thesis by auto
      qed
    qed
  qed
  from A B C D show "ainv G s t R' m ?Q ?E X (Suc c)"
    by (simp add: ainv_def)
qed

lemma astar_expand_inv:
  assumes nn: "nonneg_lengths G" and xv: "X v \<noteq> None"
  shows "ainv G s t ({v} \<times> set us) d Q E X c \<Longrightarrow> xdist s E v = d
    \<Longrightarrow> set us \<subseteq> set (neighbors G v)
    \<Longrightarrow> astar_expand G t v d us (E, Q, c) = (E', Q', c')
    \<Longrightarrow> ainv G s t {} d Q' E' X c' \<and> length Q' \<le> length Q + length us"
proof (induction us arbitrary: E Q c)
  case Nil
  then show ?case by simp
next
  case (Cons u us)
  let ?nc = "d + weight G v u"
  from Cons.prems(3) have uv: "u \<in> set (neighbors G v)" and rest: "set us \<subseteq> set (neighbors G v)"
    by simp_all
  have sub: "{v} \<times> set (u # us) \<subseteq> insert (v, u) ({v} \<times> set us)" by auto
  note inv = Cons.prems(1)
  note en = ainvD(3) [OF inv, unfolded inv_enq_def]
  show ?case
  proof (cases "\<exists>q h. E u = Some (q, h) \<and> q \<le> ?nc")
    case True
    then obtain q h where q: "E u = Some (q, h)" "q \<le> ?nc" by blast
    with Cons.prems(4) have run: "astar_expand G t v d us (E, Q, c) = (E', Q', c')"
      by (simp add: Let_def)
    from q(2) Cons.prems(2) have "q \<le> xdist s E v + weight G v u" by simp
    from relax_keep [OF inv q(1) this sub] have "ainv G s t ({v} \<times> set us) d Q E X c" .
    from Cons.IH [OF this Cons.prems(2) rest run] show ?thesis by simp
  next
    case False
    then have push: "E u = None \<or> (\<exists>q h. E u = Some (q, h) \<and> d + weight G v u < q)"
      by (cases "E u") auto
    have h0: "\<And>q h. E u = Some (q, h) \<Longrightarrow> h = 0" using en by blast
    from False Cons.prems(4) h0
    have run: "astar_expand G t v d us
        (E(u \<mapsto> (?nc, 0)), Q @ [(?nc + 0, c, u, ?nc, Some v)], Suc c) = (E', Q', c')"
      by (cases "E u") (auto simp: Let_def heuristic_def split: if_splits)
    from relax_push [OF nn inv xv Cons.prems(2) uv push sub]
    have inv': "ainv G s t ({v} \<times> set us) d (Q @ [(?nc + 0, c, u, ?nc, Some v)]) (E(u \<mapsto> (?nc, 0))) X (Suc c)"
      and dv': "xdist s (E(u \<mapsto> (?nc, 0))) v = d"
      by simp_all
    from Cons.IH [OF inv' dv' rest run] show ?thesis by simp
  qed
qed

lemma init_inv:
  assumes nn: "nonneg_lengths G" and st: "s \<noteq> t"
  shows "ainv G s t ({s} \<times> set (neighbors G s)) 0 [] Map.empty [s \<mapsto> None] 1"
proof -
  have c: "chain [s \<mapsto> None] s [s]" by (rule chain.root) simp
  have A: "inv_explored G s t Map.empty [s \<mapsto> None] 0"
    unfolding inv_explored_def
  proof (intro conjI allI impI)
    show "[s \<mapsto> None] s = Some None" by simp
    from st show "[s \<mapsto> None] t = None" by simp
  next
    fix v assume "[s \<mapsto> None] v \<noteq> None" "v \<noteq> s"
    then show "Map.empty v \<noteq> (None :: (real \<times> real) option)" by (simp split: if_splits)
  next
    fix v assume "[s \<mapsto> None] v \<noteq> None"
    then have "v = s" by (simp split: if_splits)
    with c show "\<exists>p. chain [s \<mapsto> None] v p \<and> is_path G s p v \<and> path_length G p = xdist s Map.empty v"
      by (intro exI [of _ "[s]"]) (simp add: is_path_single xdist_def)
  next
    fix v p assume "[s \<mapsto> None] v \<noteq> None" and p: "is_path G s p v"
    then have "v = s" by (simp split: if_splits)
    with is_path_length_nonneg [OF nn p] show "xdist s Map.empty v \<le> path_length G p"
      by (simp add: xdist_def)
  next
    fix v assume "[s \<mapsto> None] v \<noteq> None"
    then have "v = s" by (simp split: if_splits)
    then show "xdist s Map.empty v \<le> 0" by (simp add: xdist_def)
  qed
  have B: "inv_queue G s Map.empty [s \<mapsto> None] 0 [] 1" by (simp add: inv_queue_def)
  have C: "inv_enq s Map.empty [s \<mapsto> None] []" by (simp add: inv_enq_def)
  have D: "inv_closed G s Map.empty [s \<mapsto> None] ({s} \<times> set (neighbors G s))"
    unfolding inv_closed_def by (auto split: if_splits)
  from A B C D show ?thesis by (simp add: ainv_def)
qed

subsection \<open>Termination and result of the search\<close>

lemma qprio_fst: "qprio e = fst e"
  by (cases e) auto

lemma amu_skip:
  assumes "e \<in> set Q"
  shows "amu G s (remove1 e Q) X < amu G s Q X"
  using assms length_pos_if_in_set [OF assms] by (simp add: amu_def length_remove1)

lemma amu_explore:
  assumes v: "v \<in> insert s (targets G)" and new: "X v = None" and mem: "e \<in> set Q"
    and len: "length Q' \<le> length (remove1 e Q) + length (neighbors G v)"
  shows "amu G s Q' (X(v \<mapsto> par)) < amu G s Q X"
proof -
  let ?V = "insert s (targets G)" and ?S = "{x. X x \<noteq> None}"
  let ?f = "\<lambda>x. length (neighbors G x)"
  have fin: "finite (?V - ?S)" by (simp add: targets_def)
  from v new have vin: "v \<in> ?V - ?S" by simp
  have eq: "?V - {x. (X(v \<mapsto> par)) x \<noteq> None} = (?V - ?S) - {v}" by auto
  have "sum ?f (?V - ?S) = ?f v + sum ?f ((?V - ?S) - {v})"
    by (rule sum.remove [OF fin vin])
  moreover have "length (remove1 e Q) < length Q"
    using mem length_pos_if_in_set [OF mem] by (simp add: length_remove1)
  ultimately show ?thesis using len unfolding amu_def eq by linarith
qed

lemma astar_loop_correct:
  assumes nn: "nonneg_lengths G"
  shows "ainv G s t {} m Q E X c \<Longrightarrow> \<exists>r. astar_loop G t msg Q E X c = Some r \<and> astar_post G s t msg r"
proof (induction "amu G s Q X" arbitrary: m Q E X c rule: less_induct)
  case less
  note inv = less.prems
  note ex = ainvD(1) [OF inv, unfolded inv_explored_def]
  show ?case
  proof (cases Q)
    case Nil
    have run: "astar_loop G t msg Q E X c = Some (Inl (NetworkXNoPath msg))"
      by (subst astar_loop.simps) (simp add: Nil)
    have "\<forall>p. \<not> is_path G s p t"
    proof (intro allI notI)
      fix p assume p: "is_path G s p t"
      from ex have "s \<in> {v. X v \<noteq> None}" "t \<notin> {v. X v \<noteq> None}" by simp_all
      from path_crossing [OF nn p this] obtain x y where
        "X x \<noteq> None" "X y = None" "y \<in> set (neighbors G x)" by auto
      with ainvD(4) [OF inv] obtain q h where "E y = Some (q, h)"
        unfolding inv_closed_def by blast
      with ainvD(3) [OF inv] \<open>X y = None\<close> obtain e where "e \<in> set Q"
        unfolding inv_enq_def by blast
      with Nil show False by simp
    qed
    with run show ?thesis by (simp add: astar_post_def)
  next
    case (Cons x xs)
    obtain pr k v d par where hm: "heap_min x xs = (pr, k, v, d, par)" by (cases "heap_min x xs")
    define e where "e = (pr, k, v, d, par)"
    from heap_min_in [of x xs] Cons hm have mem: "e \<in> set Q" by (simp add: e_def)
    from heap_min_prio [of x xs] Cons hm have least: "\<forall>e' \<in> set Q. qprio e \<le> qprio e'"
      by (simp add: e_def qprio_fst)
    note e = e_def
    have "astar_loop G t msg Q E X c =
      (if v = t then build_path X par [v]
       else case astar_stale E X v d of
              Inl err \<Rightarrow> Some (Inl err)
            | Inr stale \<Rightarrow>
                if stale then astar_loop G t msg (remove1 (pr, k, v, d, par) Q) E X c
                else (case astar_expand G t v d (neighbors G v) (E, remove1 (pr, k, v, d, par) Q, c) of
                        (E', Q', c') \<Rightarrow> astar_loop G t msg Q' E' (X(v \<mapsto> par)) c'))"
      by (subst astar_loop.simps) (simp add: Cons hm)
    then have unf: "astar_loop G t msg Q E X c =
      (if v = t then build_path X par [v]
       else case astar_stale E X v d of
              Inl err \<Rightarrow> Some (Inl err)
            | Inr stale \<Rightarrow>
                if stale then astar_loop G t msg (remove1 e Q) E X c
                else (case astar_expand G t v d (neighbors G v) (E, remove1 e Q, c) of
                        (E', Q', c') \<Rightarrow> astar_loop G t msg Q' E' (X(v \<mapsto> par)) c'))"
      unfolding e_def .
    from inv_queue_entry [OF ainvD(2) [OF inv] mem] e obtain u where
      par: "par = Some u" and xu: "X u \<noteq> None" and vu: "v \<in> set (neighbors G u)"
      and du: "d = xdist s E u + weight G u v"
      by (auto simp: inv_entry_def)
    from e have qn: "qnode e = v" "qdist e = d" "qparent e = par" by simp_all
    show ?thesis
    proof (cases "v = t")
      case True
      from ex xu obtain pu where pu: "chain X u pu" "is_path G s pu u" "path_length G pu = xdist s E u"
        by blast
      from build_path_chain [OF pu(1), of "[v]"] unf True par
      have run: "astar_loop G t msg Q E X c = Some (Inr (pu @ [t]))" by simp
      have path: "is_path G s (pu @ [t]) t" using is_path_snoc [OF pu(2) vu] True by simp
      have len: "path_length G (pu @ [t]) = d"
        using is_path_length_snoc [OF pu(2), of t] pu(3) du True by simp
      from ex True qn have new: "X (qnode e) = None" by simp
      have "\<forall>p. is_path G s p t \<longrightarrow> path_length G (pu @ [t]) \<le> path_length G p"
        using popped_optimal [OF nn inv mem least new] qn True len by auto
      with run path show ?thesis by (auto simp: astar_post_def)
    next
      case False
      show ?thesis
      proof (cases "X v = None")
        case True
        with qn have new: "X (qnode e) = None" by simp
        from False qn have nt: "qnode e \<noteq> t" by simp
        obtain E' Q' c' where run: "astar_expand G t v d (neighbors G v) (E, remove1 e Q, c) = (E', Q', c')"
          by (cases "astar_expand G t v d (neighbors G v) (E, remove1 e Q, c)")
        from explore_inv [OF nn inv mem least new nt] qn
        have mid: "ainv G s t ({v} \<times> set (neighbors G v)) d (remove1 e Q) E (X(v \<mapsto> par)) c"
          and dv: "xdist s E v = d" by simp_all
        have xv: "(X(v \<mapsto> par)) v \<noteq> None" by simp
        from astar_expand_inv [OF nn xv mid dv subset_refl run]
        have inv': "ainv G s t {} d Q' E' (X(v \<mapsto> par)) c'"
          and len: "length Q' \<le> length (remove1 e Q) + length (neighbors G v)" by simp_all
        from vu neighbors_targets [of G u] have "v \<in> insert s (targets G)" by auto
        from amu_explore [of v s G X e Q Q' par, OF this True mem len]
        have "amu G s Q' (X(v \<mapsto> par)) < amu G s Q X" .
        from less.hyps [OF this inv'] unf False stale_false [of X v E d, OF True] run
        show ?thesis by simp
      next
        case False
        with qn have old: "X (qnode e) \<noteq> None" by simp
        from stale_true [OF inv mem old] qn have st: "astar_stale E X v d = Inr True" by simp
        from less.hyps [OF amu_skip [OF mem] stale_skip [OF inv mem old]] unf \<open>v \<noteq> t\<close> st
        show ?thesis by simp
      qed
    qed
  qed
qed

lemma astar_path_correct:
  assumes nn: "nonneg_lengths G" and s: "s \<in> set (node_ids G)" and t: "t \<in> set (node_ids G)"
  shows "\<exists>r. astar_path G s t = Some r
    \<and> astar_post G s t (''Node '' @ str_int t @ '' not reachable from '' @ str_int s) r"
proof -
  define msg where "msg = ''Node '' @ str_int t @ '' not reachable from '' @ str_int s"
  have ap: "astar_path G s t = astar_loop G t msg [(0, 0, s, 0, None)] Map.empty Map.empty 1"
    using s t by (simp add: astar_path_def msg_def)
  show ?thesis
  proof (cases "s = t")
    case True
    have "astar_loop G t msg [(0, 0, s, 0, None)] Map.empty Map.empty 1 = Some (Inr [s])"
      by (subst astar_loop.simps) (simp add: True build_path.simps)
    moreover have "\<forall>p. is_path G s p t \<longrightarrow> path_length G [s] \<le> path_length G p"
      using is_path_length_nonneg [OF nn] by simp
    ultimately show ?thesis using ap True by (auto simp: astar_post_def is_path_single msg_def)
  next
    case False
    obtain E' Q' c' where run: "astar_expand G t s 0 (neighbors G s) (Map.empty, [], 1) = (E', Q', c')"
      by (cases "astar_expand G t s 0 (neighbors G s) (Map.empty, [], 1)")
    have unf: "astar_loop G t msg [(0, 0, s, 0, None)] Map.empty Map.empty 1
        = astar_loop G t msg Q' E' [s \<mapsto> None] c'"
      by (subst astar_loop.simps) (simp add: False astar_stale_def run [unfolded One_nat_def])
    have xv: "[s \<mapsto> None] s \<noteq> None" by simp
    have dv: "xdist s Map.empty s = 0" by (simp add: xdist_def)
    from astar_expand_inv [OF nn xv init_inv [OF nn False] dv subset_refl run]
    have "ainv G s t {} 0 Q' E' [s \<mapsto> None] c'" by simp
    from astar_loop_correct [OF nn this, of msg] ap unf show ?thesis by (simp add: msg_def)
  qed
qed

subsection \<open>Nodes of a returned path\<close>

lemma astar_expand_nodes:
  "astar_expand G t v d us (E, Q, c) = (E', Q', c') \<Longrightarrow> qnode ` set Q' \<subseteq> qnode ` set Q \<union> set us"
proof (induction us arbitrary: E Q c)
  case Nil
  then show ?case by simp
next
  case (Cons u us)
  let ?nc = "d + weight G v u"
  from Cons.prems consider
      (keep) "astar_expand G t v d us (E, Q, c) = (E', Q', c')"
    | (push) h where "astar_expand G t v d us
          (E(u \<mapsto> (?nc, h)), Q @ [(?nc + h, c, u, ?nc, Some v)], Suc c) = (E', Q', c')"
    by (auto simp: Let_def split: option.splits if_splits)
  then show ?case
  proof cases
    case keep
    from Cons.IH [OF keep] show ?thesis by auto
  next
    case push
    from Cons.IH [OF push] show ?thesis by auto
  qed
qed

lemma astar_loop_nodes_aux:
  assumes "astar_loop G t msg Q E X c = Some r"
  shows "qnode ` set Q \<subseteq> V \<longrightarrow> dom X \<subseteq> V \<longrightarrow> targets G \<subseteq> V
    \<longrightarrow> (\<forall>path. r = Inr path \<longrightarrow> set path \<subseteq> V)"
proof (rule astar_loop.raw_induct [OF _ assms], goal_cases)
  case (1 loop G t msg Q E X c r)
  show ?case
  proof (intro impI allI)
    fix path
    assume QV: "qnode ` set Q \<subseteq> V" and XV: "dom X \<subseteq> V" and TV: "targets G \<subseteq> V" and r: "r = Inr path"
    show "set path \<subseteq> V"
    proof (cases Q)
      case Nil
      with 1(2) r show ?thesis by simp
    next
      case (Cons x xs)
      obtain pr k v d par where hm: "heap_min x xs = (pr, k, v, d, par)" by (cases "heap_min x xs")
      from heap_min_in [of x xs] Cons hm have mem: "(pr, k, v, d, par) \<in> set Q" by simp
      with QV have vV: "v \<in> V" by force
      have sub: "qnode ` set (remove1 (pr, k, v, d, par) Q) \<subseteq> V"
        using QV set_remove1_subset [of "(pr, k, v, d, par)" Q] by blast
      show ?thesis
      proof (cases "v = t")
        case True
        with 1(2) Cons hm r have "build_path X par [v] = Some (Inr path)" by simp
        from build_path_nodes [OF this] vV XV show ?thesis by auto
      next
        case False
        show ?thesis
        proof (cases "astar_stale E X v d")
          case (Inl err)
          with 1(2) Cons hm False r show ?thesis by simp
        next
          case (Inr stale)
          show ?thesis
          proof (cases stale)
            case True
            with 1(2) Cons hm False Inr
            have "loop G t msg (remove1 (pr, k, v, d, par) Q) E X c = Some r" by simp
            from 1(1) [OF this] sub XV TV r show ?thesis by blast
          next
            case nst: False
            obtain E' Q' c' where run:
              "astar_expand G t v d (neighbors G v) (E, remove1 (pr, k, v, d, par) Q, c) = (E', Q', c')"
              by (cases "astar_expand G t v d (neighbors G v) (E, remove1 (pr, k, v, d, par) Q, c)")
            with 1(2) Cons hm False Inr nst
            have call: "loop G t msg Q' E' (X(v \<mapsto> par)) c' = Some r" by simp
            from astar_expand_nodes [OF run] sub neighbors_targets [of G v] TV
            have Q'V: "qnode ` set Q' \<subseteq> V" by blast
            from XV vV have "dom (X(v \<mapsto> par)) \<subseteq> V" by auto
            from 1(1) [OF call] Q'V this TV r show ?thesis by blast
          qed
        qed
      qed
    qed
  qed
qed

lemma astar_path_nodes:
  assumes "astar_path G s t = Some (Inr path)"
  shows "set path \<subseteq> insert s (targets G)"
proof -
  from assms obtain msg where "astar_loop G t msg [(0, 0, s, 0, None)] Map.empty Map.empty 1 = Some (Inr path)"
    by (auto simp: astar_path_def split: if_splits)
  from astar_loop_nodes_aux [OF this, of "insert s (targets G)"] show ?thesis by auto
qed

section \<open>Correctness of the bounded search\<close>

lemma dinvD:
  assumes "dinv G s cutoff R m dst seen fringe"
  shows "dst s = Some 0"
    and "\<And>v d. dst v = Some d \<Longrightarrow> d \<le> m \<and> d \<le> cutoff \<and> (\<exists>p. is_path G s p v \<and> path_length G p = d)"
    and "\<And>e. e \<in> set fringe \<Longrightarrow> m \<le> fdist e \<and> fdist e \<le> cutoff
           \<and> (\<exists>p. is_path G s p (fnode e) \<and> path_length G p = fdist e)
           \<and> (\<exists>sv. seen (fnode e) = Some sv \<and> sv \<le> fdist e)"
    and "\<And>v sv. seen v = Some sv \<Longrightarrow> dst v = None \<Longrightarrow> \<exists>e \<in> set fringe. fnode e = v \<and> fdist e = sv"
    and "\<And>u du v. dst u = Some du \<Longrightarrow> v \<in> set (neighbors G u) \<Longrightarrow> (u, v) \<notin> R
           \<Longrightarrow> du + weight G u v \<le> cutoff
           \<Longrightarrow> (\<exists>dv. dst v = Some dv \<and> dv \<le> du + weight G u v)
               \<or> (dst v = None \<and> (\<exists>sv. seen v = Some sv \<and> sv \<le> du + weight G u v))"
  using assms unfolding dinv_def by blast+

lemma fdist_fst: "fdist e = fst e"
  by (cases e) auto

lemma d_skip:
  assumes inv: "dinv G s cutoff R m dst seen fringe" and old: "dst (fnode e) \<noteq> None"
  shows "dinv G s cutoff R m dst seen (remove1 e fringe)"
  unfolding dinv_def
proof (intro conjI allI impI ballI)
  show "dst s = Some 0" by (rule dinvD(1) [OF inv])
next
  fix v d assume "dst v = Some d"
  from dinvD(2) [OF inv this]
  show "d \<le> m" "d \<le> cutoff" "\<exists>p. is_path G s p v \<and> path_length G p = d" by simp_all
next
  fix e' assume "e' \<in> set (remove1 e fringe)"
  then have "e' \<in> set fringe" using set_remove1_subset by fast
  from dinvD(3) [OF inv this]
  show "m \<le> fdist e'" "fdist e' \<le> cutoff" "\<exists>p. is_path G s p (fnode e') \<and> path_length G p = fdist e'"
    "\<exists>sv. seen (fnode e') = Some sv \<and> sv \<le> fdist e'" by simp_all
next
  fix v sv assume sv: "seen v = Some sv" "dst v = None"
  from dinvD(4) [OF inv this] obtain e' where e': "e' \<in> set fringe" "fnode e' = v" "fdist e' = sv"
    by blast
  with old sv(2) have "e' \<noteq> e" by auto
  with e' show "\<exists>e \<in> set (remove1 e fringe). fnode e = v \<and> fdist e = sv" by auto
next
  fix u du v assume "dst u = Some du" "v \<in> set (neighbors G u)" "(u, v) \<notin> R" "du + weight G u v \<le> cutoff"
  from dinvD(5) [OF inv this]
  show "(\<exists>dv. dst v = Some dv \<and> dv \<le> du + weight G u v)
      \<or> (dst v = None \<and> (\<exists>sv. seen v = Some sv \<and> sv \<le> du + weight G u v))" .
qed

lemma d_settle:
  assumes inv: "dinv G s cutoff {} m dst seen fringe" and mem: "e \<in> set fringe"
    and least: "\<forall>e' \<in> set fringe. fdist e \<le> fdist e'" and new: "dst (fnode e) = None"
  shows "dinv G s cutoff ({fnode e} \<times> set (neighbors G (fnode e))) (fdist e)
           (dst(fnode e \<mapsto> fdist e)) seen (remove1 e fringe)"
  unfolding dinv_def
proof (intro conjI allI impI ballI)
  let ?v = "fnode e" and ?d = "fdist e"
  let ?dst = "dst(?v \<mapsto> ?d)"
  note me = dinvD(3) [OF inv mem]
  from dinvD(1) [OF inv] new have vs: "?v \<noteq> s" by auto
  with dinvD(1) [OF inv] show "?dst s = Some 0" by simp
  {
    fix v d assume vd: "?dst v = Some d"
    have "d \<le> ?d \<and> d \<le> cutoff \<and> (\<exists>p. is_path G s p v \<and> path_length G p = d)"
    proof (cases "v = ?v")
      case True
      with vd me show ?thesis by auto
    next
      case False
      with vd have "dst v = Some d" by simp
      from dinvD(2) [OF inv this] me show ?thesis by auto
    qed
    then show "d \<le> ?d" "d \<le> cutoff" "\<exists>p. is_path G s p v \<and> path_length G p = d" by simp_all
  }
  {
    fix e' assume "e' \<in> set (remove1 e fringe)"
    then have e': "e' \<in> set fringe" using set_remove1_subset by fast
    from dinvD(3) [OF inv this] least e'
    show "?d \<le> fdist e'" "fdist e' \<le> cutoff" "\<exists>p. is_path G s p (fnode e') \<and> path_length G p = fdist e'"
      "\<exists>sv. seen (fnode e') = Some sv \<and> sv \<le> fdist e'" by simp_all
  }
  {
    fix v sv assume sv: "seen v = Some sv" "?dst v = None"
    then have nv: "v \<noteq> ?v" and "dst v = None" by (auto split: if_splits)
    from dinvD(4) [OF inv sv(1) this(2)] obtain e' where e': "e' \<in> set fringe" "fnode e' = v" "fdist e' = sv"
      by blast
    with nv have "e' \<noteq> e" by auto
    with e' show "\<exists>e \<in> set (remove1 e fringe). fnode e = v \<and> fdist e = sv" by auto
  }
  {
    fix u du v
    assume u: "?dst u = Some du" and v: "v \<in> set (neighbors G u)"
      and nr: "(u, v) \<notin> {?v} \<times> set (neighbors G ?v)" and le: "du + weight G u v \<le> cutoff"
    from nr v have "u \<noteq> ?v" by auto
    with u have du: "dst u = Some du" by simp
    from dinvD(5) [OF inv du v _ le]
    have old: "(\<exists>dv. dst v = Some dv \<and> dv \<le> du + weight G u v)
      \<or> (dst v = None \<and> (\<exists>sv. seen v = Some sv \<and> sv \<le> du + weight G u v))" by simp
    show "(\<exists>dv. ?dst v = Some dv \<and> dv \<le> du + weight G u v)
      \<or> (?dst v = None \<and> (\<exists>sv. seen v = Some sv \<and> sv \<le> du + weight G u v))"
    proof (cases "v = ?v")
      case True
      with old new obtain sv where sv: "seen ?v = Some sv" "sv \<le> du + weight G u v" by auto
      from dinvD(4) [OF inv sv(1) new] obtain e' where "e' \<in> set fringe" "fdist e' = sv" by blast
      with least have "?d \<le> sv" by auto
      with sv True show ?thesis by auto
    next
      case False
      with old show ?thesis by auto
    qed
  }
qed

lemma d_keep:
  assumes inv: "dinv G s cutoff R m dst seen fringe" and sub: "R \<subseteq> insert (v, u) R'"
    and settled: "\<And>dv. dst v = Some dv \<Longrightarrow> dv + weight G v u \<le> cutoff \<Longrightarrow>
        (\<exists>du. dst u = Some du \<and> du \<le> dv + weight G v u)
      \<or> (dst u = None \<and> (\<exists>su. seen u = Some su \<and> su \<le> dv + weight G v u))"
  shows "dinv G s cutoff R' m dst seen fringe"
  unfolding dinv_def
proof (intro conjI allI impI ballI)
  show "dst s = Some 0" by (rule dinvD(1) [OF inv])
next
  fix v d assume "dst v = Some d"
  from dinvD(2) [OF inv this]
  show "d \<le> m" "d \<le> cutoff" "\<exists>p. is_path G s p v \<and> path_length G p = d" by simp_all
next
  fix e' assume "e' \<in> set fringe"
  from dinvD(3) [OF inv this]
  show "m \<le> fdist e'" "fdist e' \<le> cutoff" "\<exists>p. is_path G s p (fnode e') \<and> path_length G p = fdist e'"
    "\<exists>sv. seen (fnode e') = Some sv \<and> sv \<le> fdist e'" by simp_all
next
  fix v sv assume "seen v = Some sv" "dst v = None"
  from dinvD(4) [OF inv this] show "\<exists>e \<in> set fringe. fnode e = v \<and> fdist e = sv" .
next
  fix x dx y assume x: "dst x = Some dx" "y \<in> set (neighbors G x)" "(x, y) \<notin> R'" "dx + weight G x y \<le> cutoff"
  show "(\<exists>dv. dst y = Some dv \<and> dv \<le> dx + weight G x y)
      \<or> (dst y = None \<and> (\<exists>sv. seen y = Some sv \<and> sv \<le> dx + weight G x y))"
  proof (cases "(x, y) = (v, u)")
    case True
    with settled [of dx] x show ?thesis by auto
  next
    case False
    with x(3) sub have "(x, y) \<notin> R" by auto
    from dinvD(5) [OF inv x(1,2) this x(4)] show ?thesis .
  qed
qed

lemma d_push:
  assumes nn: "nonneg_lengths G" and inv: "dinv G s cutoff R m dst seen fringe"
    and dv: "dst v = Some m" and uv: "u \<in> set (neighbors G v)" and cut: "m + weight G v u \<le> cutoff"
    and new: "dst u = None"
    and better: "seen u = None \<or> (\<exists>su. seen u = Some su \<and> m + weight G v u < su)"
    and sub: "R \<subseteq> insert (v, u) R'"
  shows "dinv G s cutoff R' m dst (seen(u \<mapsto> m + weight G v u)) (fringe @ [(m + weight G v u, c, u)])"
  unfolding dinv_def
proof (intro conjI allI impI ballI)
  let ?vu = "m + weight G v u"
  let ?seen = "seen(u \<mapsto> ?vu)"
  let ?fr = "fringe @ [(?vu, c, u)]"
  have w0: "0 \<le> weight G v u" by (rule weight_nonneg [OF nn uv])
  show "dst s = Some 0" by (rule dinvD(1) [OF inv])
  {
    fix x d assume "dst x = Some d"
    from dinvD(2) [OF inv this]
    show "d \<le> m" "d \<le> cutoff" "\<exists>p. is_path G s p x \<and> path_length G p = d" by simp_all
  }
  have oldu: "\<And>e'. e' \<in> set fringe \<Longrightarrow> fnode e' = u \<Longrightarrow> ?vu < fdist e'"
  proof -
    fix e' assume e': "e' \<in> set fringe" "fnode e' = u"
    from dinvD(3) [OF inv e'(1)] e'(2) obtain su where "seen u = Some su" "su \<le> fdist e'" by auto
    with better show "?vu < fdist e'" by auto
  qed
  {
    fix e' assume "e' \<in> set ?fr"
    then have c: "e' = (?vu, c, u) \<or> e' \<in> set fringe" by auto
    have "m \<le> fdist e' \<and> fdist e' \<le> cutoff
        \<and> (\<exists>p. is_path G s p (fnode e') \<and> path_length G p = fdist e')
        \<and> (\<exists>sv. ?seen (fnode e') = Some sv \<and> sv \<le> fdist e')"
    proof (cases "e' = (?vu, c, u)")
      case True
      from dinvD(2) [OF inv dv] obtain pv where pv: "is_path G s pv v" "path_length G pv = m" by blast
      have "is_path G s (pv @ [u]) u" by (rule is_path_snoc [OF pv(1) uv])
      moreover have "path_length G (pv @ [u]) = ?vu"
        using is_path_length_snoc [OF pv(1), of u] pv(2) by simp
      ultimately have "\<exists>p. is_path G s p u \<and> path_length G p = ?vu" by blast
      with True w0 cut show ?thesis by simp
    next
      case False
      with c have e': "e' \<in> set fringe" by simp
      have "\<exists>sv. ?seen (fnode e') = Some sv \<and> sv \<le> fdist e'"
      proof (cases "fnode e' = u")
        case True
        with oldu [OF e'] show ?thesis by auto
      next
        case False
        with dinvD(3) [OF inv e'] show ?thesis by auto
      qed
      with dinvD(3) [OF inv e'] show ?thesis by simp
    qed
    then show "m \<le> fdist e'" "fdist e' \<le> cutoff"
      "\<exists>p. is_path G s p (fnode e') \<and> path_length G p = fdist e'"
      "\<exists>sv. ?seen (fnode e') = Some sv \<and> sv \<le> fdist e'" by simp_all
  }
  {
    fix x sx assume sx: "?seen x = Some sx" "dst x = None"
    show "\<exists>e \<in> set ?fr. fnode e = x \<and> fdist e = sx"
    proof (cases "x = u")
      case True
      with sx show ?thesis by auto
    next
      case False
      with sx have "seen x = Some sx" by simp
      from dinvD(4) [OF inv this sx(2)] show ?thesis by auto
    qed
  }
  {
    fix x dx y assume x: "dst x = Some dx" "y \<in> set (neighbors G x)" "(x, y) \<notin> R'" "dx + weight G x y \<le> cutoff"
    show "(\<exists>dv. dst y = Some dv \<and> dv \<le> dx + weight G x y)
      \<or> (dst y = None \<and> (\<exists>sv. ?seen y = Some sv \<and> sv \<le> dx + weight G x y))"
    proof (cases "(x, y) = (v, u)")
      case True
      with x(1) dv new show ?thesis by auto
    next
      case False
      with x(3) sub have "(x, y) \<notin> R" by auto
      from dinvD(5) [OF inv x(1,2) this x(4)]
      have old: "(\<exists>dv. dst y = Some dv \<and> dv \<le> dx + weight G x y)
        \<or> (dst y = None \<and> (\<exists>sv. seen y = Some sv \<and> sv \<le> dx + weight G x y))" .
      show ?thesis
      proof (cases "y = u")
        case True
        with old new obtain su where "seen u = Some su" "su \<le> dx + weight G x y" by auto
        with better True new show ?thesis by auto
      next
        case False
        with old show ?thesis by auto
      qed
    qed
  }
qed

lemma relax_inv:
  assumes nn: "nonneg_lengths G" and dv: "dst v = Some d"
  shows "dinv G s cutoff ({v} \<times> set us) d dst seen fringe \<Longrightarrow> set us \<subseteq> set (neighbors G v)
    \<Longrightarrow> \<exists>seen' fringe' c'. relax G cutoff v d dst us (seen, fringe, c) = Inr (seen', fringe', c')
          \<and> dinv G s cutoff {} d dst seen' fringe'"
proof (induction us arbitrary: seen fringe c)
  case Nil
  then show ?case by simp
next
  case (Cons u us)
  let ?vu = "d + weight G v u"
  note inv = Cons.prems(1)
  from Cons.prems(2) have uv: "u \<in> set (neighbors G v)" and rest: "set us \<subseteq> set (neighbors G v)"
    by simp_all
  have sub: "{v} \<times> set (u # us) \<subseteq> insert (v, u) ({v} \<times> set us)" by auto
  have w0: "0 \<le> weight G v u" by (rule weight_nonneg [OF nn uv])
  show ?case
  proof (cases "cutoff < ?vu")
    case True
    then have run: "relax G cutoff v d dst (u # us) (seen, fringe, c) = relax G cutoff v d dst us (seen, fringe, c)"
      by (simp add: Let_def)
    have "dinv G s cutoff ({v} \<times> set us) d dst seen fringe"
      by (rule d_keep [OF inv sub]) (use True dv in auto)
    from Cons.IH [OF this rest, of c] show ?thesis unfolding run .
  next
    case False
    then have cut: "?vu \<le> cutoff" by simp
    show ?thesis
    proof (cases "dst u")
      case (Some ud)
      from dinvD(2) [OF inv Some] w0 have le: "ud \<le> ?vu" by simp
      with False Some
      have run: "relax G cutoff v d dst (u # us) (seen, fringe, c) = relax G cutoff v d dst us (seen, fringe, c)"
        by (simp add: Let_def)
      have "dinv G s cutoff ({v} \<times> set us) d dst seen fringe"
        by (rule d_keep [OF inv sub]) (use Some le dv in auto)
      from Cons.IH [OF this rest, of c] show ?thesis unfolding run .
    next
      case None
      show ?thesis
      proof (cases "\<exists>su. seen u = Some su \<and> su \<le> ?vu")
        case True
        then obtain su where su: "seen u = Some su" "su \<le> ?vu" by blast
        with False None
        have run: "relax G cutoff v d dst (u # us) (seen, fringe, c) = relax G cutoff v d dst us (seen, fringe, c)"
          by (simp add: Let_def)
        have "dinv G s cutoff ({v} \<times> set us) d dst seen fringe"
          by (rule d_keep [OF inv sub]) (use None su dv in auto)
        from Cons.IH [OF this rest, of c] show ?thesis unfolding run .
      next
        case nb: False
        then have better: "seen u = None \<or> (\<exists>su. seen u = Some su \<and> ?vu < su)"
          by (cases "seen u") auto
        with False None
        have run: "relax G cutoff v d dst (u # us) (seen, fringe, c)
            = relax G cutoff v d dst us (seen(u \<mapsto> ?vu), fringe @ [(?vu, c, u)], Suc c)"
          by (cases "seen u") (auto simp: Let_def)
        from d_push [OF nn inv dv uv cut None better sub]
        have "dinv G s cutoff ({v} \<times> set us) d dst (seen(u \<mapsto> ?vu)) (fringe @ [(?vu, c, u)])" .
        from Cons.IH [OF this rest, of "Suc c"] show ?thesis unfolding run .
      qed
    qed
  qed
qed

lemma dijkstra_loop_correct:
  "nonneg_lengths G \<Longrightarrow> dinv G s cutoff {} m dst seen fringe
    \<Longrightarrow> \<exists>dst'. dijkstra_loop G cutoff dst seen fringe c = Inr dst' \<and> dfinal G s cutoff dst'"
proof (induction G cutoff dst seen fringe c arbitrary: m rule: dijkstra_loop.induct)
  case (1 G cutoff dst seen fringe c)
  note inv = "1.prems"(2)
  note nn = "1.prems"(1)
  show ?case
  proof (cases fringe)
    case Nil
    have run: "dijkstra_loop G cutoff dst seen fringe c = Inr dst"
      by (subst dijkstra_loop.simps) (simp add: Nil)
    have "dfinal G s cutoff dst"
      unfolding dfinal_def
    proof (intro conjI allI impI)
      show "dst s = Some 0" by (rule dinvD(1) [OF inv])
    next
      fix v d assume "dst v = Some d"
      from dinvD(2) [OF inv this] show "d \<le> cutoff" "\<exists>p. is_path G s p v \<and> path_length G p = d"
        by simp_all
    next
      fix u du v assume a: "dst u = Some du" "v \<in> set (neighbors G u)" "du + weight G u v \<le> cutoff"
      from dinvD(5) [OF inv a(1,2) _ a(3)]
      have "(\<exists>dv. dst v = Some dv \<and> dv \<le> du + weight G u v)
        \<or> (dst v = None \<and> (\<exists>sv. seen v = Some sv \<and> sv \<le> du + weight G u v))" by simp
      moreover have "\<not> (dst v = None \<and> (\<exists>sv. seen v = Some sv \<and> sv \<le> du + weight G u v))"
        using dinvD(4) [OF inv, of v] Nil by auto
      ultimately show "\<exists>dv. dst v = Some dv \<and> dv \<le> du + weight G u v" by blast
    qed
    with run show ?thesis by simp
  next
    case (Cons x xs)
    obtain d k v where hm: "heap_min x xs = (d, k, v)" by (cases "heap_min x xs")
    from heap_min_in [of x xs] Cons hm have mem: "(d, k, v) \<in> set fringe" by simp
    from heap_min_prio [of x xs] Cons hm have least: "\<forall>e' \<in> set fringe. fdist (d, k, v) \<le> fdist e'"
      by (simp add: fdist_fst)
    show ?thesis
    proof (cases "dst v")
      case (Some dv)
      then have run: "dijkstra_loop G cutoff dst seen fringe c
          = dijkstra_loop G cutoff dst seen (remove1 (d, k, v) fringe) c"
        by (subst dijkstra_loop.simps) (simp add: Cons hm)
      from Some have "dst (fnode (d, k, v)) \<noteq> None" by simp
      from d_skip [OF inv this] have inv': "dinv G s cutoff {} m dst seen (remove1 (d, k, v) fringe)" .
      have "dst v \<noteq> None" using Some by simp
      from "1.IH"(1) [OF Cons hm [symmetric] refl this nn inv'] show ?thesis unfolding run .
    next
      case None
      then have new: "dst (fnode (d, k, v)) = None" by simp
      from d_settle [OF inv mem least new]
      have mid: "dinv G s cutoff ({v} \<times> set (neighbors G v)) d (dst(v \<mapsto> d)) seen (remove1 (d, k, v) fringe)"
        by simp
      have dv: "(dst(v \<mapsto> d)) v = Some d" by simp
      from relax_inv [OF nn dv mid subset_refl, of c] obtain seen' fringe' c' where
        rel: "relax G cutoff v d (dst(v \<mapsto> d)) (neighbors G v) (seen, remove1 (d, k, v) fringe, c)
            = Inr (seen', fringe', c')"
        and inv': "dinv G s cutoff {} d (dst(v \<mapsto> d)) seen' fringe'"
        by blast
      from None rel have run: "dijkstra_loop G cutoff dst seen fringe c
          = dijkstra_loop G cutoff (dst(v \<mapsto> d)) seen' fringe' c'"
        by (subst dijkstra_loop.simps) (simp add: Cons hm)
      have "\<not> dst v \<noteq> None" using None by simp
      from "1.IH"(2) [OF Cons hm [symmetric] refl this rel refl refl nn inv']
      show ?thesis unfolding run .
    qed
  qed
qed

lemma dfinal_reach:
  assumes nn: "nonneg_lengths G" and fin: "dfinal G s cutoff dst"
  shows "dst v \<noteq> None \<longleftrightarrow> (\<exists>p. is_path G s p v \<and> path_length G p \<le> cutoff)"
proof
  assume "dst v \<noteq> None"
  then obtain d where "dst v = Some d" by auto
  with fin show "\<exists>p. is_path G s p v \<and> path_length G p \<le> cutoff"
    unfolding dfinal_def by blast
next
  assume "\<exists>p. is_path G s p v \<and> path_length G p \<le> cutoff"
  then obtain p where p: "is_path G s p v" "path_length G p \<le> cutoff" by blast
  have "is_path G s p v \<Longrightarrow> path_length G p \<le> cutoff \<Longrightarrow> \<exists>dv. dst v = Some dv \<and> dv \<le> path_length G p"
  proof (induction p arbitrary: v rule: rev_induct)
    case Nil
    then show ?case by (simp add: is_path_def)
  next
    case (snoc w p')
    from is_path_cases [OF snoc.prems(1)] show ?case
    proof
      assume "p' @ [w] = [s] \<and> v = s"
      with fin show ?thesis by (simp add: dfinal_def)
    next
      assume "\<exists>q u. p' @ [w] = q @ [v] \<and> is_path G s q u \<and> v \<in> set (neighbors G u)"
      then obtain u where wv: "w = v" and u: "is_path G s p' u" and e: "v \<in> set (neighbors G u)"
        by auto
      have len: "path_length G (p' @ [w]) = path_length G p' + weight G u v"
        using is_path_length_snoc [OF u, of v] wv by simp
      have w0: "0 \<le> weight G u v" by (rule weight_nonneg [OF nn e])
      with len snoc.prems(2) have "path_length G p' \<le> cutoff" by simp
      from snoc.IH [OF u this] obtain du where du: "dst u = Some du" "du \<le> path_length G p'" by blast
      with len snoc.prems(2) have "du + weight G u v \<le> cutoff" by simp
      with fin du(1) e obtain dv where "dst v = Some dv" "dv \<le> du + weight G u v"
        unfolding dfinal_def by blast
      with du(2) len show ?thesis by auto
    qed
  qed
  from this [OF p] show "dst v \<noteq> None" by auto
qed

lemma init_dinv:
  assumes "0 \<le> cutoff"
  shows "dinv G s cutoff ({s} \<times> set (neighbors G s)) 0 [s \<mapsto> 0] [s \<mapsto> 0] []"
  unfolding dinv_def
proof (intro conjI allI impI ballI)
  show "[s \<mapsto> 0 :: real] s = Some 0" by simp
next
  fix v and d :: real assume "[s \<mapsto> 0] v = Some d"
  then have v: "v = s" "d = 0" by (auto split: if_splits)
  with assms show "d \<le> 0" "d \<le> cutoff" by simp_all
  from v show "\<exists>p. is_path G s p v \<and> path_length G p = d"
    by (intro exI [of _ "[s]"]) (simp add: is_path_single)
next
  fix v and sv :: real assume "[s \<mapsto> 0] v = Some sv" "[s \<mapsto> 0 :: real] v = None"
  then show "\<exists>e \<in> set []. fnode e = v \<and> fdist e = sv" by (simp split: if_splits)
next
  fix u v and du :: real
  assume "[s \<mapsto> 0] u = Some du" "v \<in> set (neighbors G u)" "(u, v) \<notin> {s} \<times> set (neighbors G s)"
  then have False by (auto split: if_splits)
  then show "(\<exists>dv. [s \<mapsto> 0] v = Some dv \<and> dv \<le> du + weight G u v)
      \<or> ([s \<mapsto> 0 :: real] v = None \<and> (\<exists>sv. [s \<mapsto> 0] v = Some sv \<and> sv \<le> du + weight G u v))" ..
qed simp_all

lemma single_source_dijkstra_correct:
  assumes nn: "nonneg_lengths G" and c0: "0 \<le> cutoff" and s: "s \<in> set (node_ids G)"
  shows "\<exists>dst. single_source_dijkstra G s cutoff = Inr dst
    \<and> (\<forall>v. dst v \<noteq> None \<longleftrightarrow> (\<exists>p. is_path G s p v \<and> path_length G p \<le> cutoff))"
proof -
  have dv: "[s \<mapsto> 0 :: real] s = Some 0" by simp
  from relax_inv [OF nn dv init_dinv [OF c0] subset_refl, of 1] obtain seen' fringe' c' where
    rel: "relax G cutoff s 0 [s \<mapsto> 0] (neighbors G s) ([s \<mapsto> 0], [], 1) = Inr (seen', fringe', c')"
    and inv: "dinv G s cutoff {} 0 [s \<mapsto> 0] seen' fringe'"
    by blast
  have "dijkstra_loop G cutoff Map.empty [s \<mapsto> 0] [(0, 0, s)] 1
      = dijkstra_loop G cutoff [s \<mapsto> 0] seen' fringe' c'"
    by (subst dijkstra_loop.simps) (simp add: rel [unfolded One_nat_def])
  with dijkstra_loop_correct [OF nn inv, of c'] obtain dst where
    "dijkstra_loop G cutoff Map.empty [s \<mapsto> 0] [(0, 0, s)] 1 = Inr dst" "dfinal G s cutoff dst"
    by auto
  with s dfinal_reach [OF nn this(2)] show ?thesis
    by (auto simp: single_source_dijkstra_def)
qed

lemma node_ids_subgraph: "set (node_ids (subgraph G keep)) = {v \<in> set (node_ids G). keep v}"
  by (auto simp: node_ids_def subgraph_def)

text \<open>The nodes of the ego graph: the nodes of the graph within the radius of the centre.\<close>

lemma ego_graph_nodes:
  assumes nn: "nonneg_lengths G" and r0: "0 \<le> radius" and n: "n \<in> set (node_ids G)"
  shows "\<exists>H. ego_graph G n radius = Inr H
    \<and> set (node_ids H) = {v \<in> set (node_ids G). \<exists>p. is_path G n p v \<and> path_length G p \<le> radius}"
proof -
  from single_source_dijkstra_correct [OF nn r0 n] obtain sp where
    sp: "single_source_dijkstra G n radius = Inr sp"
    "\<forall>v. sp v \<noteq> None \<longleftrightarrow> (\<exists>p. is_path G n p v \<and> path_length G p \<le> radius)"
    by blast
  then show ?thesis by (simp add: ego_graph_def node_ids_subgraph)
qed

lemma ego_graph_not_found:
  assumes "n \<notin> set (node_ids G)"
  shows "ego_graph G n r1 = ego_graph G n r2 \<and> (\<exists>err. ego_graph G n r1 = Inl err)"
  using assms by (simp add: ego_graph_def single_source_dijkstra_def)

lemma avoid_loop_mono:
  assumes nn: "nonneg_lengths G" and r: "0 \<le> r1" "r1 \<le> r2"
  shows "acc1 \<subseteq> acc2 \<Longrightarrow>
     (\<exists>A1 A2. avoid_loop e G box r1 zones acc1 = Inr A1 \<and> avoid_loop e G box r2 zones acc2 = Inr A2 \<and> A1 \<subseteq> A2)
   \<or> (\<exists>err. avoid_loop e G box r1 zones acc1 = Inl err \<and> avoid_loop e G box r2 zones acc2 = Inl err)"
proof (induction zones arbitrary: acc1 acc2)
  case Nil
  then show ?case by simp
next
  case (Cons z zones)
  obtain lon lat where z: "z = (lon, lat)" by (cases z)
  obtain north south east west where b: "box = (north, south, east, west)" by (cases box)
  show ?case
  proof (cases "west < lon \<and> lon < east \<and> south < lat \<and> lat < north")
    case False
    then have eq: "\<And>r acc. avoid_loop e G box r (z # zones) acc = avoid_loop e G box r zones acc"
      by (auto simp: z b)
    show ?thesis unfolding eq by (rule Cons.IH [OF Cons.prems])
  next
    case True
    show ?thesis
    proof (cases "nearest_nodes e G lon lat")
      case (Inl err)
      with True have "\<And>r acc. avoid_loop e G box r (z # zones) acc = Inl err"
        by (simp add: z b)
      then show ?thesis by simp
    next
      case (Inr cn)
      with True have eq: "\<And>r acc. avoid_loop e G box r (z # zones) acc =
          (case ego_graph G cn r of Inl err \<Rightarrow> Inl err
           | Inr H \<Rightarrow> avoid_loop e G box r zones (acc \<union> set (node_ids H)))"
        by (simp add: z b split: sum.splits)
      show ?thesis
      proof (cases "cn \<in> set (node_ids G)")
        case False
        from ego_graph_not_found [OF this, of r1 r2] obtain err where
          "ego_graph G cn r1 = Inl err" "ego_graph G cn r2 = Inl err" by metis
        then show ?thesis unfolding eq by simp
      next
        case cn: True
        from r have r2: "0 \<le> r2" by simp
        from ego_graph_nodes [OF nn r(1) cn] obtain H1 where
          H1: "ego_graph G cn r1 = Inr H1"
          "set (node_ids H1) = {v \<in> set (node_ids G). \<exists>p. is_path G cn p v \<and> path_length G p \<le> r1}"
          by blast
        from ego_graph_nodes [OF nn r2 cn] obtain H2 where
          H2: "ego_graph G cn r2 = Inr H2"
          "set (node_ids H2) = {v \<in> set (node_ids G). \<exists>p. is_path G cn p v \<and> path_length G p \<le> r2}"
          by blast
        from H1(2) H2(2) r(2) have "set (node_ids H1) \<subseteq> set (node_ids H2)" by fastforce
        with Cons.prems have "acc1 \<union> set (node_ids H1) \<subseteq> acc2 \<union> set (node_ids H2)" by blast
        from Cons.IH [OF this] show ?thesis unfolding eq H1(1) H2(1) by simp
      qed
    qed
  qed
qed

section \<open>Hazard loading and error outcomes\<close>

lemma str_int_2015: "str_int 2015 = ''2015''"
  by code_simp

lemma str_nat_404: "str_nat 404 = ''404''"
  by code_simp

lemma get_wildfires_no_data:
  assumes "wildfire_data_cache s ''2015-CA'' = None"
    and "fire_db e 2015 ''CA'' = Inr [] \<or> (\<exists>err. fire_db e 2015 ''CA'' = Inl err)"
  shows "get_wildfires e s 2015 ''CA'' = (Inl (HTTPException 404 no_data_detail), s)"
  using assms by (auto simp: get_wildfires_def get_wildfire_data_def str_int_2015)

lemma demo_empty_run:
  "calculate_route demo_env_empty demo_state demo_request =
     Some (Inl (HTTPException 500 (''An internal server error occurred: 404: '' @ no_data_detail)), demo_state)"
  by (simp add: calculate_route_def calculate_route_try_def prepare_safe_graph_def get_wildfires_def
      get_wildfire_data_def str_int_2015 str_nat_404 demo_env_empty_def demo_state_def)

text \<open>
  Claim C4, as the code has it.  The claim says that an empty hazard list means "no
  exclusions" and can be told apart from a provider error.  In the code
  \<^verbatim>\<open>get_wildfires\<close> raises its 404 exception for an empty list and for \<^verbatim>\<open>None\<close>
  alike, and \<^verbatim>\<open>calculate_route\<close> ends with an error response: with nothing cached for
  2015/CA, an empty result and a failed query both give the 500 response whose detail
  carries the 404 message, and the state is unchanged (no network is loaded).
\<close>

theorem empty_hazards_fail:
  assumes "wildfire_data_cache s ''2015-CA'' = None"
    and "fire_db e 2015 ''CA'' = Inr [] \<or> (\<exists>err. fire_db e 2015 ''CA'' = Inl err)"
  shows "calculate_route e s request =
    Some (Inl (HTTPException 500 (''An internal server error occurred: 404: '' @ no_data_detail)), s)"
  using get_wildfires_no_data [OF assms]
  by (simp add: calculate_route_def calculate_route_try_def prepare_safe_graph_def str_nat_404)

theorem empty_hazards_fail_witness:
  "wildfire_data_cache demo_state ''2015-CA'' = None \<and> fire_db demo_env_empty 2015 ''CA'' = Inr [] \<and>
   calculate_route demo_env_empty demo_state demo_request =
    Some (Inl (HTTPException 500 (''An internal server error occurred: 404: '' @ no_data_detail)), demo_state)"
proof -
  have c: "wildfire_data_cache demo_state ''2015-CA'' = None"
    by (simp add: demo_state_def)
  have d: "fire_db demo_env_empty 2015 ''CA'' = Inr []"
    by (simp add: demo_env_empty_def)
  from empty_hazards_fail [OF c, of demo_env_empty demo_request] c d show ?thesis by simp
qed

text \<open>
  The claim as stated fails: with an empty hazard list the sample call returns the 500
  response instead of a route, and a provider error returns the very same result.
\<close>

theorem empty_hazards_counterexample:
  "calculate_route demo_env_empty demo_state demo_request =
     Some (Inl (HTTPException 500
       ''An internal server error occurred: 404: No wildfire data found for the specified year and state.''),
       demo_state)
   \<and> calculate_route demo_env_down demo_state demo_request =
     calculate_route demo_env_empty demo_state demo_request"
  by (simp add: calculate_route_def calculate_route_try_def prepare_safe_graph_def get_wildfires_def
      get_wildfire_data_def str_int_2015 str_nat_404 demo_env_empty_def demo_env_down_def
      demo_state_def no_data_detail_def)

lemma handler_cases:
  "handler err = HTTPException 404 ''Could not find a safe path.''
   \<or> handler err = HTTPException 500 (''An internal server error occurred: '' @ exn_str err)"
  by (cases err) simp_all

text \<open>
  Claim C9, as the code has it.  \<^verbatim>\<open>RouteRequest\<close> has no validators and
  \<^verbatim>\<open>calculate_route\<close> checks no range, so there is no InvalidRequest outcome: every
  failure of \<^verbatim>\<open>calculate_route\<close>, for any request, is the 404 response of the
  \<^verbatim>\<open>NetworkXNoPath\<close> handler or the 500 response of the general handler.
\<close>

theorem failures_are_404_or_500:
  assumes "calculate_route e s request = Some (Inl err, s')"
  shows "err = HTTPException 404 ''Could not find a safe path.''
    \<or> (\<exists>x. err = HTTPException 500 (''An internal server error occurred: '' @ exn_str x))"
proof -
  from assms obtain x where "err = handler x"
    by (auto simp: calculate_route_def split: option.splits sum.splits prod.splits)
  with handler_cases [of x] show ?thesis by auto
qed

theorem failures_are_404_or_500_witness:
  "calculate_route demo_env_empty demo_state demo_request =
     Some (Inl (HTTPException 500 (''An internal server error occurred: 404: '' @ no_data_detail)), demo_state)
   \<and> (HTTPException 500 (''An internal server error occurred: 404: '' @ no_data_detail)
         = HTTPException 404 ''Could not find a safe path.''
       \<or> (\<exists>x. HTTPException 500 (''An internal server error occurred: 404: '' @ no_data_detail)
              = HTTPException 500 (''An internal server error occurred: '' @ exn_str x)))"
  using failures_are_404_or_500 [OF demo_empty_run] demo_empty_run by simp

text \<open>
  The claim as stated fails: a request at latitude 100 is not rejected, and a route
  comes back.
\<close>

theorem out_of_range_counterexample:
  "90 < start_lat demo_bad_request
   \<and> map_option fst (calculate_route demo_env demo_state demo_bad_request)
     = Some (Inr [(0.01, 0.02)])"
  by code_simp

section \<open>The state through a call\<close>

lemma get_wildfires_state:
  assumes "get_wildfires e s year st = (r, s1)"
  shows "heap s1 = heap s \<and> graph_cache s1 = graph_cache s \<and> next_addr s1 = next_addr s"
  using assms by (auto simp: get_wildfires_def Let_def split: option.splits if_splits)

lemma load_graph_state:
  assumes "load_graph e s1 box = (r, s2)"
  shows "(s2 = s1 \<and> (\<forall>G. r = Inr G \<longrightarrow> graph_cache s1 (graph_cache_key e box) = Some G))
    \<or> (\<exists>g. r = Inr (next_addr s1) \<and> graph_cache s1 (graph_cache_key e box) = None
          \<and> (case box of (north, south, east, west) \<Rightarrow> graph_from_bbox e north south east west) = Inr g
          \<and> heap s2 = (heap s1)(next_addr s1 := g) \<and> next_addr s2 = Suc (next_addr s1)
          \<and> graph_cache s2 = (graph_cache s1)(graph_cache_key e box \<mapsto> next_addr s1))"
  using assms
  by (auto simp: load_graph_def alloc_def split: option.splits sum.splits prod.splits)

lemma prepare_safe_graph_Inr:
  assumes "prepare_safe_graph e s request = (Inr (G, avoid, Gs), s')"
  shows "\<exists>hotspots s1 s2.
      get_wildfires e s 2015 ''CA'' = (Inr hotspots, s1)
    \<and> load_graph e s1 (bbox request) = (Inr G, s2)
    \<and> avoid_loop e (heap s2 G) (bbox request) danger_radius_meters (danger_zones_of hotspots) {} = Inr avoid
    \<and> Gs = next_addr s2
    \<and> heap s' = (heap s2)(next_addr s2 := remove_nodes_from (heap s2 G) avoid)
    \<and> next_addr s' = Suc (next_addr s2)
    \<and> graph_cache s' = graph_cache s2"
  using assms
  by (auto simp: prepare_safe_graph_def alloc_def split: sum.splits prod.splits)

lemma calculate_route_try_Inr:
  assumes "calculate_route_try e s request = Some (Inr p, s')"
  shows "prepare_safe_graph e s request = (Inr (plan_G p, nodes_to_avoid p, G_safe p), s')
    \<and> route_on e (heap s' (G_safe p)) (start_lat request, start_lon request) (end_lat request, end_lon request)
        = Some (Inr (start_node p, end_node p, safe_route_nodes p))
    \<and> coords_of (heap s' (plan_G p)) (safe_route_nodes p) = Inr (route_coords p)"
  using assms
  by (auto simp: calculate_route_try_def split: prod.splits sum.splits option.splits)

lemma prepare_safe_graph_state:
  assumes "prepare_safe_graph e s request = (r, s')"
  shows "\<exists>r0 s1 r1 s2.
      get_wildfires e s 2015 ''CA'' = (r0, s1)
    \<and> load_graph e s1 (bbox request) = (r1, s2)
    \<and> (s' = s1 \<or> s' = s2
        \<or> (\<exists>g. heap s' = (heap s2)(next_addr s2 := g) \<and> next_addr s' = Suc (next_addr s2)
                \<and> graph_cache s' = graph_cache s2))"
proof -
  obtain r0 s1 where a: "get_wildfires e s 2015 ''CA'' = (r0, s1)" by (cases "get_wildfires e s 2015 ''CA''")
  obtain r1 s2 where b: "load_graph e s1 (bbox request) = (r1, s2)" by (cases "load_graph e s1 (bbox request)")
  from assms a b have "s' = s1 \<or> s' = s2
        \<or> (\<exists>g. heap s' = (heap s2)(next_addr s2 := g) \<and> next_addr s' = Suc (next_addr s2)
                \<and> graph_cache s' = graph_cache s2)"
    by (auto simp: prepare_safe_graph_def alloc_def split: sum.splits prod.splits)
  with a b show ?thesis by blast
qed

lemma calculate_route_state:
  assumes "calculate_route e s request = Some (r, s')"
  shows "\<exists>r0. prepare_safe_graph e s request = (r0, s')"
  using assms
  by (auto simp: calculate_route_def calculate_route_try_def split: option.splits sum.splits prod.splits)

text \<open>
  Claim C7.  A call of \<^verbatim>\<open>calculate_route\<close> that completes, with a route or with an
  error response, leaves every graph object that existed before the call as it was and
  keeps every cache entry; a cache entry it adds refers to a new object that holds the
  downloaded network unchanged.  So in a state whose cache refers to existing objects,
  every cached network has the nodes, edges and attributes it had before the call: the
  removal of the excluded nodes works on the copy only.
\<close>

theorem cached_network_not_mutated:
  assumes "calculate_route e s request = Some (r, s')"
  shows "(\<forall>a. a < next_addr s \<longrightarrow> heap s' a = heap s a)
    \<and> (\<forall>k a. graph_cache s k = Some a \<longrightarrow> graph_cache s' k = Some a)
    \<and> (\<forall>k a. graph_cache s' k = Some a \<longrightarrow>
          graph_cache s k = Some a
          \<or> (k = graph_cache_key e (bbox request) \<and> a = next_addr s
              \<and> (case bbox request of (north, south, east, west) \<Rightarrow> graph_from_bbox e north south east west)
                  = Inr (heap s' a)))
    \<and> (wf_state s \<longrightarrow> wf_state s' \<and> (\<forall>k a. graph_cache s k = Some a \<longrightarrow> heap s' a = heap s a))"
proof -
  from calculate_route_state [OF assms] obtain r0 where "prepare_safe_graph e s request = (r0, s')" ..
  from prepare_safe_graph_state [OF this] obtain r0 s1 r1 s2 where
    gw: "get_wildfires e s 2015 ''CA'' = (r0, s1)"
    and lg: "load_graph e s1 (bbox request) = (r1, s2)"
    and fin: "s' = s1 \<or> s' = s2
        \<or> (\<exists>g. heap s' = (heap s2)(next_addr s2 := g) \<and> next_addr s' = Suc (next_addr s2)
                \<and> graph_cache s' = graph_cache s2)"
    by blast
  note s1 = get_wildfires_state [OF gw]
  note s2 = load_graph_state [OF lg]
  have A: "\<forall>a. a < next_addr s \<longrightarrow> heap s' a = heap s a"
    using s1 s2 fin by auto
  have B: "\<forall>k a. graph_cache s k = Some a \<longrightarrow> graph_cache s' k = Some a"
    using s1 s2 fin by auto
  have C: "\<forall>k a. graph_cache s' k = Some a \<longrightarrow>
          graph_cache s k = Some a
          \<or> (k = graph_cache_key e (bbox request) \<and> a = next_addr s
              \<and> (case bbox request of (north, south, east, west) \<Rightarrow> graph_from_bbox e north south east west)
                  = Inr (heap s' a))"
    using s1 s2 fin by (auto split: if_splits)
  have D: "wf_state s \<longrightarrow> wf_state s' \<and> (\<forall>k a. graph_cache s k = Some a \<longrightarrow> heap s' a = heap s a)"
  proof
    assume wf: "wf_state s"
    have "wf_state s'"
      unfolding wf_state_def
    proof (intro allI impI)
      fix k a assume "graph_cache s' k = Some a"
      with C have "graph_cache s k = Some a \<or> a = next_addr s" by blast
      moreover have "next_addr s \<le> next_addr s'" using s1 s2 fin by auto
      moreover have "a = next_addr s \<Longrightarrow> graph_cache s k \<noteq> Some a \<Longrightarrow> next_addr s < next_addr s'"
        using s1 s2 fin \<open>graph_cache s' k = Some a\<close> by (auto split: if_splits)
      ultimately show "a < next_addr s'"
        using wf unfolding wf_state_def by (metis order_less_le_trans)
    qed
    moreover have "\<forall>k a. graph_cache s k = Some a \<longrightarrow> heap s' a = heap s a"
      using wf A by (auto simp: wf_state_def)
    ultimately show "wf_state s' \<and> (\<forall>k a. graph_cache s k = Some a \<longrightarrow> heap s' a = heap s a)" ..
  qed
  from A B C D show ?thesis by blast
qed

lemma demo_warm_run:
  "map_option fst (calculate_route demo_env demo_state_warm demo_request)
     = Some (Inr [(0, 0), (0, 0.01), (0.01, 0.02), (0, 0.03), (0, 0.04)])"
  by code_simp

theorem cached_network_not_mutated_witness:
  "wf_state demo_state_warm
   \<and> (\<exists>r s'. calculate_route demo_env demo_state_warm demo_request = Some (r, s')
        \<and> heap s' 0 = demo_graph \<and> graph_cache s' ''+---+--'' = Some 0 \<and> wf_state s')"
proof -
  have wf: "wf_state demo_state_warm"
    by (simp add: wf_state_def demo_state_warm_def)
  from demo_warm_run obtain r s' where
    run: "calculate_route demo_env demo_state_warm demo_request = Some (r, s')"
    by (cases "calculate_route demo_env demo_state_warm demo_request") auto
  have c: "graph_cache demo_state_warm ''+---+--'' = Some 0"
    by (simp add: demo_state_warm_def)
  from cached_network_not_mutated [OF run] wf c
  have "heap s' 0 = heap demo_state_warm 0" "graph_cache s' ''+---+--'' = Some 0" "wf_state s'"
    by blast+
  then have "heap s' 0 = demo_graph \<and> graph_cache s' ''+---+--'' = Some 0 \<and> wf_state s'"
    by (simp add: demo_state_warm_def)
  with run wf show ?thesis by blast
qed

section \<open>Hazards outside the bounding box\<close>

lemma avoid_loop_skip:
  assumes "\<not> (west < lon \<and> lon < east \<and> south < lat \<and> lat < north)"
  shows "avoid_loop e G (north, south, east, west) radius (zs1 @ (lon, lat) # zs2) acc
       = avoid_loop e G (north, south, east, west) radius (zs1 @ zs2) acc"
  using assms
proof (induction zs1 arbitrary: acc)
  case Nil
  then show ?case by auto
next
  case (Cons z zs1)
  obtain lon' lat' where z: "z = (lon', lat')" by (cases z)
  from Cons.prems have ih: "\<And>acc. avoid_loop e G (north, south, east, west) radius (zs1 @ (lon, lat) # zs2) acc
       = avoid_loop e G (north, south, east, west) radius (zs1 @ zs2) acc"
    by (rule Cons.IH)
  show ?case
    by (simp add: z ih split: sum.splits)
qed

text \<open>
  Claim C8.  A hazard point that is not strictly inside the request's bounding box
  (the extremes of start and end with the margin of 0.1 degrees) adds nothing to the
  excluded-node set: the loop over the danger zones gives the same result, a set or an
  exception, with the hazard present as without it.
\<close>

theorem hazard_outside_bbox_ignored:
  assumes "bbox request = (north, south, east, west)"
    and "\<not> (west < longitude h \<and> longitude h < east \<and> south < latitude h \<and> latitude h < north)"
  shows "avoid_loop e G (bbox request) radius (danger_zones_of (hs1 @ h # hs2)) acc
       = avoid_loop e G (bbox request) radius (danger_zones_of (hs1 @ hs2)) acc"
  using avoid_loop_skip [OF assms(2)] by (simp add: assms(1) danger_zones_of_def)

theorem hazard_outside_bbox_ignored_witness:
  "bbox demo_request = (0.1, - 0.1, 0.14, - 0.1)
   \<and> \<not> (- 0.1 < longitude demo_far_fire \<and> longitude demo_far_fire < 0.14
        \<and> - 0.1 < latitude demo_far_fire \<and> latitude demo_far_fire < 0.1)
   \<and> avoid_loop demo_env demo_graph (bbox demo_request) 1000 (danger_zones_of ([demo_fire] @ demo_far_fire # [])) {}
     = avoid_loop demo_env demo_graph (bbox demo_request) 1000 (danger_zones_of ([demo_fire] @ [])) {}
   \<and> avoid_loop demo_env demo_graph (bbox demo_request) 1000 (danger_zones_of ([demo_fire] @ [])) {} = Inr {3}"
proof -
  have b: "bbox demo_request = (0.1, - 0.1, 0.14, - 0.1)"
    by (simp add: bbox_def demo_request_def)
  have o: "\<not> (- 0.1 < longitude demo_far_fire \<and> longitude demo_far_fire < 0.14
        \<and> - 0.1 < latitude demo_far_fire \<and> latitude demo_far_fire < 0.1)"
    by (simp add: demo_far_fire_def)
  have v: "avoid_loop demo_env demo_graph (bbox demo_request) 1000 (danger_zones_of ([demo_fire] @ [])) {} = Inr {3}"
    by code_simp
  from hazard_outside_bbox_ignored [OF b o, of demo_env demo_graph 1000 "[demo_fire]" "[]" "{}"] b o v
  show ?thesis by simp
qed

section \<open>Projection of the endpoints\<close>

lemma nearest_nodes_is_nearest:
  assumes "nearest_nodes e G X Y = Inr n"
  shows "is_nearest e G n X Y"
proof -
  let ?f = "\<lambda>(i, x, y). metric e (x, y) (X, Y)"
  let ?m = "arg_min_list ?f (gnodes G)"
  from assms have ne: "gnodes G \<noteq> []" and n: "n = fst ?m"
    by (auto simp: nearest_nodes_def split: if_splits)
  obtain i x y where m: "?m = (i, x, y)" by (cases ?m)
  from arg_min_list_in [OF ne, of ?f] m n have mem: "(n, x, y) \<in> set (gnodes G)" by simp
  have "\<forall>z \<in> set (gnodes G). ?f ?m \<le> ?f z"
    using f_arg_min_list_f [OF ne, of ?f] by simp
  with m have "\<forall>(i, x', y') \<in> set (gnodes G). metric e (x, y) (X, Y) \<le> metric e (x', y') (X, Y)"
    by auto
  with mem show ?thesis unfolding is_nearest_def by blast
qed

lemma nearest_nodes_mem:
  assumes "nearest_nodes e G X Y = Inr n"
  shows "n \<in> set (node_ids G)"
  using nearest_nodes_is_nearest [OF assms] by (force simp: is_nearest_def node_ids_def)

lemma remove_nodes_from_nodes:
  "(n, x, y) \<in> set (gnodes (remove_nodes_from G ns)) \<longleftrightarrow> (n, x, y) \<in> set (gnodes G) \<and> n \<notin> ns"
  by (auto simp: remove_nodes_from_def)

lemma route_on_projected:
  assumes "nearest_nodes e Gs (snd sp) (fst sp) = Inr sn"
    and "nearest_nodes e Gs (snd ep) (fst ep) = Inr en"
  shows "route_on e Gs sp ep =
    (case astar_path Gs sn en of
       None \<Rightarrow> None
     | Some (Inl err) \<Rightarrow> Some (Inl err)
     | Some (Inr path) \<Rightarrow> Some (Inr (sn, en, path)))"
  using assms by (simp add: route_on_def)

lemma calculate_route_after_prepare:
  assumes "prepare_safe_graph e s request = (Inr (G, avoid, Gs), s')"
  shows "calculate_route e s request =
    (case route_on e (heap s' Gs) (start_lat request, start_lon request) (end_lat request, end_lon request) of
       None \<Rightarrow> None
     | Some (Inl err) \<Rightarrow> Some (Inl (handler err), s')
     | Some (Inr (sn, en, path)) \<Rightarrow>
         (case coords_of (heap s' G) path of
            Inl err \<Rightarrow> Some (Inl (handler err), s')
          | Inr coords \<Rightarrow> Some (Inr coords, s')))"
  using assms
  by (simp add: calculate_route_def calculate_route_try_def split: option.splits sum.splits prod.splits)

lemma calculate_route_prepare_error:
  assumes "prepare_safe_graph e s request = (Inl err, s')"
  shows "calculate_route e s request = Some (Inl (handler err), s')"
  using assms by (simp add: calculate_route_def calculate_route_try_def)

lemma prepare_safe_graph_steps:
  assumes hz: "get_wildfires e s 2015 ''CA'' = (Inr hotspots, s1)"
    and lg: "load_graph e s1 (bbox request) = (Inr G, s2)"
  shows "prepare_safe_graph e s request =
    (case avoid_loop e (heap s2 G) (bbox request) 1000 (danger_zones_of hotspots) {} of
       Inl err \<Rightarrow> (Inl err, s2)
     | Inr avoid \<Rightarrow>
         (Inr (G, avoid, next_addr s2),
          s2\<lparr>heap := (heap s2)(next_addr s2 := remove_nodes_from (heap s2 G) avoid),
             next_addr := Suc (next_addr s2)\<rparr>))"
  by (simp add: prepare_safe_graph_def hz lg alloc_def danger_radius_meters_def split: sum.splits)

lemma route_on_cases:
  "route_on e Gs sp ep =
     (case nearest_nodes e Gs (snd sp) (fst sp) of
        Inl err \<Rightarrow> Some (Inl err)
      | Inr sn \<Rightarrow>
          (case nearest_nodes e Gs (snd ep) (fst ep) of
             Inl err \<Rightarrow> Some (Inl err)
           | Inr en \<Rightarrow>
               (case astar_path Gs sn en of
                  None \<Rightarrow> None
                | Some (Inl err) \<Rightarrow> Some (Inl err)
                | Some (Inr path) \<Rightarrow> Some (Inr (sn, en, path)))))"
  by (simp add: route_on_def)

lemma nearest_not_removed:
  assumes "nearest_nodes e (remove_nodes_from G avoid) X Y = Inr n"
  shows "is_nearest e (remove_nodes_from G avoid) n X Y \<and> n \<notin> avoid"
proof -
  from nearest_nodes_is_nearest [OF assms]
  have n: "is_nearest e (remove_nodes_from G avoid) n X Y" .
  then have "n \<notin> avoid" by (auto simp: is_nearest_def remove_nodes_from_nodes)
  with n show ?thesis by simp
qed

lemma calculate_route_projected:
  assumes prep: "prepare_safe_graph e s request = (Inr (G, avoid, Gs), s')"
    and hs: "heap s' Gs = safe"
  shows "calculate_route e s request =
        (case nearest_nodes e safe (start_lon request) (start_lat request) of
           Inl err \<Rightarrow> Some (Inl (handler err), s')
         | Inr sn \<Rightarrow>
             (case nearest_nodes e safe (end_lon request) (end_lat request) of
                Inl err \<Rightarrow> Some (Inl (handler err), s')
              | Inr en \<Rightarrow>
                  (case astar_path safe sn en of
                     None \<Rightarrow> None
                   | Some (Inl err) \<Rightarrow> Some (Inl (handler err), s')
                   | Some (Inr path) \<Rightarrow>
                       (case coords_of (heap s' G) path of
                          Inl err \<Rightarrow> Some (Inl (handler err), s')
                        | Inr coords \<Rightarrow> Some (Inr coords, s')))))"
  unfolding calculate_route_after_prepare [OF prep] hs route_on_cases
  by (simp split: sum.splits option.splits)

lemma calculate_route_try_projected:
  assumes prep: "prepare_safe_graph e s request = (Inr (G, avoid, Gs), s')"
    and hs: "heap s' Gs = safe"
    and run: "calculate_route_try e s request = Some (Inr p, s'')"
  shows "nodes_to_avoid p = avoid
    \<and> nearest_nodes e safe (start_lon request) (start_lat request) = Inr (start_node p)
    \<and> nearest_nodes e safe (end_lon request) (end_lat request) = Inr (end_node p)
    \<and> astar_path safe (start_node p) (end_node p) = Some (Inr (safe_route_nodes p))"
proof -
  from calculate_route_try_Inr [OF run] prep
  have same: "G_safe p = Gs" "s'' = s'" "nodes_to_avoid p = avoid"
    and ro: "route_on e (heap s'' (G_safe p)) (start_lat request, start_lon request)
        (end_lat request, end_lon request) = Some (Inr (start_node p, end_node p, safe_route_nodes p))"
    by simp_all
  from ro same hs have "route_on e safe (start_lat request, start_lon request)
        (end_lat request, end_lon request) = Some (Inr (start_node p, end_node p, safe_route_nodes p))"
    by simp
  then have "nearest_nodes e safe (start_lon request) (start_lat request) = Inr (start_node p)"
    "nearest_nodes e safe (end_lon request) (end_lat request) = Inr (end_node p)"
    "astar_path safe (start_node p) (end_node p) = Some (Inr (safe_route_nodes p))"
    by (auto simp: route_on_def split: sum.splits option.splits)
  with same show ?thesis by simp
qed

text \<open>
  Claim C3.  Once the hazards of 2015/CA are loaded, the network \<open>G\<close> is loaded and the
  excluded set \<open>avoid\<close> is computed, the outcome of \<^verbatim>\<open>calculate_route\<close> is fixed by the
  projection of the start and the end on the safe graph, the network with the excluded
  nodes removed, which is a new object beside \<open>G\<close>: an error of a projection, or the
  search between the two projected nodes on the safe graph.  A projected node is a nearest
  node among the nodes of the safe graph and is not an excluded node.  When the call
  returns a route, its local variables \<^verbatim>\<open>start_node\<close> and \<^verbatim>\<open>end_node\<close> are these
  projections.
\<close>

theorem endpoints_projected_on_safe_subgraph:
  assumes hz: "get_wildfires e s 2015 ''CA'' = (Inr hotspots, s1)"
    and lg: "load_graph e s1 (bbox request) = (Inr G, s2)"
    and al: "avoid_loop e (heap s2 G) (bbox request) 1000 (danger_zones_of hotspots) {} = Inr avoid"
  shows "\<exists>safe s'.
      safe = remove_nodes_from (heap s2 G) avoid
    \<and> heap s' = (heap s2)(next_addr s2 := safe)
    \<and> calculate_route e s request =
        (case nearest_nodes e safe (start_lon request) (start_lat request) of
           Inl err \<Rightarrow> Some (Inl (handler err), s')
         | Inr sn \<Rightarrow>
             (case nearest_nodes e safe (end_lon request) (end_lat request) of
                Inl err \<Rightarrow> Some (Inl (handler err), s')
              | Inr en \<Rightarrow>
                  (case astar_path safe sn en of
                     None \<Rightarrow> None
                   | Some (Inl err) \<Rightarrow> Some (Inl (handler err), s')
                   | Some (Inr path) \<Rightarrow>
                       (case coords_of (heap s' G) path of
                          Inl err \<Rightarrow> Some (Inl (handler err), s')
                        | Inr coords \<Rightarrow> Some (Inr coords, s')))))
    \<and> (\<forall>sn. nearest_nodes e safe (start_lon request) (start_lat request) = Inr sn \<longrightarrow>
           is_nearest e safe sn (start_lon request) (start_lat request) \<and> sn \<notin> avoid)
    \<and> (\<forall>en. nearest_nodes e safe (end_lon request) (end_lat request) = Inr en \<longrightarrow>
           is_nearest e safe en (end_lon request) (end_lat request) \<and> en \<notin> avoid)
    \<and> (\<forall>p s''. calculate_route_try e s request = Some (Inr p, s'') \<longrightarrow>
           nodes_to_avoid p = avoid
         \<and> nearest_nodes e safe (start_lon request) (start_lat request) = Inr (start_node p)
         \<and> nearest_nodes e safe (end_lon request) (end_lat request) = Inr (end_node p)
         \<and> astar_path safe (start_node p) (end_node p) = Some (Inr (safe_route_nodes p))
         \<and> start_node p \<notin> nodes_to_avoid p \<and> end_node p \<notin> nodes_to_avoid p)"
proof -
  define safe where "safe = remove_nodes_from (heap s2 G) avoid"
  define s' where "s' = s2\<lparr>heap := (heap s2)(next_addr s2 := safe), next_addr := Suc (next_addr s2)\<rparr>"
  from prepare_safe_graph_steps [OF hz lg] al
  have prep: "prepare_safe_graph e s request = (Inr (G, avoid, next_addr s2), s')"
    by (simp add: s'_def safe_def)
  have hp: "heap s' = (heap s2)(next_addr s2 := safe)"
    by (simp add: s'_def)
  then have hs: "heap s' (next_addr s2) = safe" by simp
  note cr = calculate_route_projected [OF prep hs]
  have n1: "\<forall>sn. nearest_nodes e safe (start_lon request) (start_lat request) = Inr sn \<longrightarrow>
           is_nearest e safe sn (start_lon request) (start_lat request) \<and> sn \<notin> avoid"
    unfolding safe_def using nearest_not_removed by blast
  have n2: "\<forall>en. nearest_nodes e safe (end_lon request) (end_lat request) = Inr en \<longrightarrow>
           is_nearest e safe en (end_lon request) (end_lat request) \<and> en \<notin> avoid"
    unfolding safe_def using nearest_not_removed by blast
  have pl: "\<forall>p s''. calculate_route_try e s request = Some (Inr p, s'') \<longrightarrow>
           nodes_to_avoid p = avoid
         \<and> nearest_nodes e safe (start_lon request) (start_lat request) = Inr (start_node p)
         \<and> nearest_nodes e safe (end_lon request) (end_lat request) = Inr (end_node p)
         \<and> astar_path safe (start_node p) (end_node p) = Some (Inr (safe_route_nodes p))
         \<and> start_node p \<notin> nodes_to_avoid p \<and> end_node p \<notin> nodes_to_avoid p"
  proof (intro allI impI)
    fix p :: plan and s'' :: server_state
    assume run: "calculate_route_try e s request = Some (Inr p, s'')"
    note pr = calculate_route_try_projected [OF prep hs run]
    with n1 n2 have "start_node p \<notin> avoid" "end_node p \<notin> avoid" by blast+
    with pr show "nodes_to_avoid p = avoid
         \<and> nearest_nodes e safe (start_lon request) (start_lat request) = Inr (start_node p)
         \<and> nearest_nodes e safe (end_lon request) (end_lat request) = Inr (end_node p)
         \<and> astar_path safe (start_node p) (end_node p) = Some (Inr (safe_route_nodes p))
         \<and> start_node p \<notin> nodes_to_avoid p \<and> end_node p \<notin> nodes_to_avoid p"
      by simp
  qed
  from safe_def hp cr n1 n2 pl show ?thesis by blast
qed

text \<open>
  In the sample the start lies next to node 3, the nearest node of the network and an
  excluded one; the projection on the safe graph is node 2, and the route starts there.
\<close>

lemma demo_at_fire_steps:
  "nearest_nodes demo_env demo_graph 0.019 0 = Inr 3"
  "fst (get_wildfires demo_env demo_state 2015 ''CA'') = Inr [demo_fire]"
  "fst (load_graph demo_env (snd (get_wildfires demo_env demo_state 2015 ''CA'')) (bbox demo_request_at_fire))
     = Inr 0"
  "heap (snd (load_graph demo_env (snd (get_wildfires demo_env demo_state 2015 ''CA''))
       (bbox demo_request_at_fire))) 0 = demo_graph"
  "next_addr (snd (load_graph demo_env (snd (get_wildfires demo_env demo_state 2015 ''CA''))
       (bbox demo_request_at_fire))) = 1"
  "avoid_loop demo_env demo_graph (bbox demo_request_at_fire) 1000 (danger_zones_of [demo_fire]) {} = Inr {3}"
  "nearest_nodes demo_env (remove_nodes_from demo_graph {3}) 0.019 0 = Inr 2"
  "nearest_nodes demo_env (remove_nodes_from demo_graph {3}) 0.04 0 = Inr 5"
  "astar_path (remove_nodes_from demo_graph {3}) 2 5 = Some (Inr [2, 6, 4, 5])"
  "coords_of demo_graph [2, 6, 4, 5] = Inr [(0, 0.01), (0.01, 0.02), (0, 0.03), (0, 0.04)]"
  by code_simp+

theorem endpoints_projected_on_safe_subgraph_witness:
  "nearest_nodes demo_env demo_graph 0.019 0 = Inr 3
   \<and> (\<exists>s1 s2 s'.
          get_wildfires demo_env demo_state 2015 ''CA'' = (Inr [demo_fire], s1)
        \<and> load_graph demo_env s1 (bbox demo_request_at_fire) = (Inr 0, s2)
        \<and> avoid_loop demo_env (heap s2 0) (bbox demo_request_at_fire) 1000 (danger_zones_of [demo_fire]) {}
            = Inr {3}
        \<and> nearest_nodes demo_env (remove_nodes_from (heap s2 0) {3}) 0.019 0 = Inr 2
        \<and> nearest_nodes demo_env (remove_nodes_from (heap s2 0) {3}) 0.04 0 = Inr 5
        \<and> calculate_route demo_env demo_state demo_request_at_fire
            = Some (Inr [(0, 0.01), (0.01, 0.02), (0, 0.03), (0, 0.04)], s'))
   \<and> (2::int) \<notin> {3} \<and> (5::int) \<notin> {3}"
proof -
  define s1 where "s1 = snd (get_wildfires demo_env demo_state 2015 ''CA'')"
  define s2 where "s2 = snd (load_graph demo_env s1 (bbox demo_request_at_fire))"
  have hz: "get_wildfires demo_env demo_state 2015 ''CA'' = (Inr [demo_fire], s1)"
    using demo_at_fire_steps(2) by (simp add: s1_def prod_eq_iff)
  have lg: "load_graph demo_env s1 (bbox demo_request_at_fire) = (Inr 0, s2)"
    using demo_at_fire_steps(3) by (simp add: s1_def s2_def prod_eq_iff)
  have h0: "heap s2 0 = demo_graph"
    using demo_at_fire_steps(4) by (simp add: s1_def s2_def)
  have na: "next_addr s2 = 1"
    using demo_at_fire_steps(5) by (simp add: s1_def s2_def)
  have al: "avoid_loop demo_env (heap s2 0) (bbox demo_request_at_fire) 1000 (danger_zones_of [demo_fire]) {}
      = Inr {3}"
    unfolding h0 by (rule demo_at_fire_steps(6))
  have n1: "nearest_nodes demo_env (remove_nodes_from (heap s2 0) {3}) 0.019 0 = Inr 2"
    unfolding h0 by (rule demo_at_fire_steps(7))
  have n2: "nearest_nodes demo_env (remove_nodes_from (heap s2 0) {3}) 0.04 0 = Inr 5"
    unfolding h0 by (rule demo_at_fire_steps(8))
  have ap: "astar_path (remove_nodes_from (heap s2 0) {3}) 2 5 = Some (Inr [2, 6, 4, 5])"
    unfolding h0 by (rule demo_at_fire_steps(9))
  have c: "start_lon demo_request_at_fire = 0.019" "start_lat demo_request_at_fire = 0"
    "end_lon demo_request_at_fire = 0.04" "end_lat demo_request_at_fire = 0"
    by (simp_all add: demo_request_at_fire_def)
  from endpoints_projected_on_safe_subgraph [OF hz lg al] obtain safe and s' :: server_state where
    safe: "safe = remove_nodes_from (heap s2 0) {3}"
    and hp: "heap s' = (heap s2)(next_addr s2 := safe)"
    and cr: "calculate_route demo_env demo_state demo_request_at_fire =
        (case nearest_nodes demo_env safe (start_lon demo_request_at_fire) (start_lat demo_request_at_fire) of
           Inl err \<Rightarrow> Some (Inl (handler err), s')
         | Inr sn \<Rightarrow>
             (case nearest_nodes demo_env safe (end_lon demo_request_at_fire) (end_lat demo_request_at_fire) of
                Inl err \<Rightarrow> Some (Inl (handler err), s')
              | Inr en \<Rightarrow>
                  (case astar_path safe sn en of
                     None \<Rightarrow> None
                   | Some (Inl err) \<Rightarrow> Some (Inl (handler err), s')
                   | Some (Inr path) \<Rightarrow>
                       (case coords_of (heap s' 0) path of
                          Inl err \<Rightarrow> Some (Inl (handler err), s')
                        | Inr coords \<Rightarrow> Some (Inr coords, s')))))"
    and ns: "\<forall>sn. nearest_nodes demo_env safe (start_lon demo_request_at_fire) (start_lat demo_request_at_fire) = Inr sn
        \<longrightarrow> is_nearest demo_env safe sn (start_lon demo_request_at_fire) (start_lat demo_request_at_fire) \<and> sn \<notin> {3}"
    and ne: "\<forall>en. nearest_nodes demo_env safe (end_lon demo_request_at_fire) (end_lat demo_request_at_fire) = Inr en
        \<longrightarrow> is_nearest demo_env safe en (end_lon demo_request_at_fire) (end_lat demo_request_at_fire) \<and> en \<notin> {3}"
    by blast
  from hp na h0 have h0': "heap s' 0 = demo_graph" by simp
  have res: "calculate_route demo_env demo_state demo_request_at_fire
      = Some (Inr [(0, 0.01), (0.01, 0.02), (0, 0.03), (0, 0.04)], s')"
    unfolding cr safe c n1 n2 ap h0' demo_at_fire_steps(10) sum.case option.case by (rule refl)
  from ns [unfolded safe c n1] ne [unfolded safe c n2] have "(2::int) \<notin> {3} \<and> (5::int) \<notin> {3}" by blast
  with demo_at_fire_steps(1) hz lg al n1 n2 res show ?thesis by blast
qed

section \<open>The fixed hazard filter and radius\<close>

lemma get_wildfires_env:
  assumes "fire_db e2 year st = fire_db e year st"
  shows "get_wildfires e2 s year st = get_wildfires e s year st"
  unfolding get_wildfires_def get_wildfire_data_def assms ..

lemma load_graph_env:
  assumes "graph_from_bbox e2 = graph_from_bbox e" and "fmt4 e2 = fmt4 e"
  shows "load_graph e2 s box = load_graph e s box"
  unfolding load_graph_def graph_cache_key_def assms ..

lemma nearest_nodes_env:
  assumes "metric e2 = metric e"
  shows "nearest_nodes e2 G X Y = nearest_nodes e G X Y"
  unfolding nearest_nodes_def assms ..

lemma avoid_loop_env:
  assumes "metric e2 = metric e"
  shows "avoid_loop e2 G box radius zones acc = avoid_loop e G box radius zones acc"
proof (induction zones arbitrary: acc)
  case Nil
  show ?case by simp
next
  case (Cons z zones)
  obtain lon lat where z: "z = (lon, lat)" by (cases z)
  obtain north south east west where b: "box = (north, south, east, west)" by (cases box)
  show ?case
    unfolding z b avoid_loop.simps nearest_nodes_env [OF assms] Cons.IH [unfolded b] ..
qed

lemma route_on_env:
  assumes "metric e2 = metric e"
  shows "route_on e2 Gs sp ep = route_on e Gs sp ep"
  unfolding route_on_def nearest_nodes_env [OF assms] ..

lemma calculate_route_env:
  assumes "fire_db e2 2015 ''CA'' = fire_db e 2015 ''CA''"
    and "graph_from_bbox e2 = graph_from_bbox e" and "metric e2 = metric e" and "fmt4 e2 = fmt4 e"
  shows "calculate_route e2 s request = calculate_route e s request"
  unfolding calculate_route_def calculate_route_try_def prepare_safe_graph_def
      get_wildfires_env [OF assms(1)] load_graph_env [OF assms(2,4)]
      avoid_loop_env [OF assms(3)] route_on_env [OF assms(3)] ..

text \<open>
  The excluded set of the loop, on a network with lengths that are not negative: the
  nodes within the radius, along the edges, of the nearest node of a zone strictly inside
  the box.
\<close>

lemma avoid_loop_within:
  assumes nn: "nonneg_lengths G" and r0: "0 \<le> radius"
    and run: "avoid_loop e G (north, south, east, west) radius zones acc = Inr A"
  shows "A = acc \<union> {v \<in> set (node_ids G). \<exists>(lon, lat) \<in> set zones.
            west < lon \<and> lon < east \<and> south < lat \<and> lat < north
          \<and> (\<exists>c p. nearest_nodes e G lon lat = Inr c \<and> is_path G c p v \<and> path_length G p \<le> radius)}"
proof -
  define near where "near = (\<lambda>lon lat. {v \<in> set (node_ids G). \<exists>c p. nearest_nodes e G lon lat = Inr c
      \<and> is_path G c p v \<and> path_length G p \<le> radius})"
  define S where "S = (\<lambda>zs. {v \<in> set (node_ids G). \<exists>(lon, lat) \<in> set zs.
            west < lon \<and> lon < east \<and> south < lat \<and> lat < north
          \<and> (\<exists>c p. nearest_nodes e G lon lat = Inr c \<and> is_path G c p v \<and> path_length G p \<le> radius)})"
  have S_nil: "S [] = {}" by (simp add: S_def)
  have S_in: "S ((lon, lat) # zs) = near lon lat \<union> S zs"
    if "west < lon \<and> lon < east \<and> south < lat \<and> lat < north" for lon lat zs
    using that by (auto simp: S_def near_def)
  have S_out: "S ((lon, lat) # zs) = S zs"
    if "\<not> (west < lon \<and> lon < east \<and> south < lat \<and> lat < north)" for lon lat zs
    using that by (auto simp: S_def)
  have "avoid_loop e G (north, south, east, west) radius zones acc = Inr A \<Longrightarrow> A = acc \<union> S zones"
  proof (induction zones arbitrary: acc)
    case Nil
    then show ?case by (simp add: S_nil)
  next
    case (Cons z zones)
    obtain lon lat where z: "z = (lon, lat)" by (cases z)
    show ?case
    proof (cases "west < lon \<and> lon < east \<and> south < lat \<and> lat < north")
      case False
      with Cons.prems have "avoid_loop e G (north, south, east, west) radius zones acc = Inr A"
        by (auto simp: z)
      from Cons.IH [OF this] show ?thesis unfolding z S_out [OF False] .
    next
      case True
      with Cons.prems obtain c H where c: "nearest_nodes e G lon lat = Inr c"
        and H: "ego_graph G c radius = Inr H"
        and rest: "avoid_loop e G (north, south, east, west) radius zones (acc \<union> set (node_ids H)) = Inr A"
        by (auto simp: z split: sum.splits)
      from ego_graph_nodes [OF nn r0 nearest_nodes_mem [OF c]] H
      have "set (node_ids H) = {v \<in> set (node_ids G). \<exists>p. is_path G c p v \<and> path_length G p \<le> radius}"
        by simp
      with c have "set (node_ids H) = near lon lat" by (auto simp: near_def)
      with Cons.IH [OF rest] have "A = acc \<union> (near lon lat \<union> S zones)" by (simp add: Un_assoc)
      then show ?thesis unfolding z S_in [OF True] .
    qed
  qed
  from this [OF run] show ?thesis unfolding S_def .
qed

text \<open>
  Claim C10.  The hazards of a call are those \<^verbatim>\<open>get_wildfires\<close> gives for year 2015 and
  state CA, and the radius is 1000.  With these hazards and the network loaded, the call
  fails with the exception of the loop over the danger zones run with radius 1000, or its
  outcome is that of the search on the network without the nodes this loop yields; on a
  network with lengths that are not negative these are the nodes within 1000, along the
  edges, of the nearest node of a 2015/CA hazard strictly inside the box.  The outcome
  depends on the hazard source only through its answer for (2015, CA), and a request is
  its four coordinates: two requests with the same coordinates are the same request and
  have the same outcome in the same state.
\<close>

theorem fixed_hazard_filter_and_radius:
  assumes hz: "get_wildfires e s 2015 ''CA'' = (Inr hotspots, s1)"
    and lg: "load_graph e s1 (bbox request) = (Inr G, s2)"
  shows "(\<forall>err. avoid_loop e (heap s2 G) (bbox request) 1000 (danger_zones_of hotspots) {} = Inl err \<longrightarrow>
            calculate_route e s request = Some (Inl (handler err), s2))
    \<and> (\<forall>avoid. avoid_loop e (heap s2 G) (bbox request) 1000 (danger_zones_of hotspots) {} = Inr avoid \<longrightarrow>
          (\<exists>s'. heap s' = (heap s2)(next_addr s2 := remove_nodes_from (heap s2 G) avoid)
              \<and> next_addr s' = Suc (next_addr s2)
              \<and> graph_cache s' = graph_cache s2
              \<and> wildfire_data_cache s' = wildfire_data_cache s2
              \<and> calculate_route e s request =
                  (case route_on e (remove_nodes_from (heap s2 G) avoid)
                          (start_lat request, start_lon request) (end_lat request, end_lon request) of
                     None \<Rightarrow> None
                   | Some (Inl err) \<Rightarrow> Some (Inl (handler err), s')
                   | Some (Inr (sn, en, path)) \<Rightarrow>
                       (case coords_of (heap s' G) path of
                          Inl err \<Rightarrow> Some (Inl (handler err), s')
                        | Inr coords \<Rightarrow> Some (Inr coords, s'))))
        \<and> (nonneg_lengths (heap s2 G) \<longrightarrow>
             avoid = {v \<in> set (node_ids (heap s2 G)). \<exists>fire \<in> set hotspots.
                 (case bbox request of (north, south, east, west) \<Rightarrow>
                    west < longitude fire \<and> longitude fire < east
                  \<and> south < latitude fire \<and> latitude fire < north)
               \<and> (\<exists>c p. nearest_nodes e (heap s2 G) (longitude fire) (latitude fire) = Inr c
                     \<and> is_path (heap s2 G) c p v \<and> path_length (heap s2 G) p \<le> 1000)}))
    \<and> (\<forall>e2. fire_db e2 2015 ''CA'' = fire_db e 2015 ''CA'' \<and> graph_from_bbox e2 = graph_from_bbox e
          \<and> metric e2 = metric e \<and> fmt4 e2 = fmt4 e
        \<longrightarrow> calculate_route e2 s request = calculate_route e s request)
    \<and> (\<forall>request2. start_lat request2 = start_lat request \<and> start_lon request2 = start_lon request
          \<and> end_lat request2 = end_lat request \<and> end_lon request2 = end_lon request
        \<longrightarrow> calculate_route e s request2 = calculate_route e s request)"
proof (intro conjI allI impI)
  fix err
  assume "avoid_loop e (heap s2 G) (bbox request) 1000 (danger_zones_of hotspots) {} = Inl err"
  with prepare_safe_graph_steps [OF hz lg]
  have "prepare_safe_graph e s request = (Inl err, s2)" by simp
  then show "calculate_route e s request = Some (Inl (handler err), s2)"
    by (rule calculate_route_prepare_error)
next
  fix avoid
  assume al: "avoid_loop e (heap s2 G) (bbox request) 1000 (danger_zones_of hotspots) {} = Inr avoid"
  define s' where "s' = s2\<lparr>heap := (heap s2)(next_addr s2 := remove_nodes_from (heap s2 G) avoid),
             next_addr := Suc (next_addr s2)\<rparr>"
  from prepare_safe_graph_steps [OF hz lg] al
  have prep: "prepare_safe_graph e s request = (Inr (G, avoid, next_addr s2), s')"
    by (simp add: s'_def)
  have hp: "heap s' = (heap s2)(next_addr s2 := remove_nodes_from (heap s2 G) avoid)"
    and fr: "next_addr s' = Suc (next_addr s2)" "graph_cache s' = graph_cache s2"
      "wildfire_data_cache s' = wildfire_data_cache s2"
    by (simp_all add: s'_def)
  from hp have "heap s' (next_addr s2) = remove_nodes_from (heap s2 G) avoid" by simp
  with calculate_route_after_prepare [OF prep]
  have "calculate_route e s request =
                  (case route_on e (remove_nodes_from (heap s2 G) avoid)
                          (start_lat request, start_lon request) (end_lat request, end_lon request) of
                     None \<Rightarrow> None
                   | Some (Inl err) \<Rightarrow> Some (Inl (handler err), s')
                   | Some (Inr (sn, en, path)) \<Rightarrow>
                       (case coords_of (heap s' G) path of
                          Inl err \<Rightarrow> Some (Inl (handler err), s')
                        | Inr coords \<Rightarrow> Some (Inr coords, s')))"
    by simp
  with hp fr show "\<exists>s'. heap s' = (heap s2)(next_addr s2 := remove_nodes_from (heap s2 G) avoid)
              \<and> next_addr s' = Suc (next_addr s2)
              \<and> graph_cache s' = graph_cache s2
              \<and> wildfire_data_cache s' = wildfire_data_cache s2
              \<and> calculate_route e s request =
                  (case route_on e (remove_nodes_from (heap s2 G) avoid)
                          (start_lat request, start_lon request) (end_lat request, end_lon request) of
                     None \<Rightarrow> None
                   | Some (Inl err) \<Rightarrow> Some (Inl (handler err), s')
                   | Some (Inr (sn, en, path)) \<Rightarrow>
                       (case coords_of (heap s' G) path of
                          Inl err \<Rightarrow> Some (Inl (handler err), s')
                        | Inr coords \<Rightarrow> Some (Inr coords, s')))"
    by blast
next
  fix avoid
  assume al: "avoid_loop e (heap s2 G) (bbox request) 1000 (danger_zones_of hotspots) {} = Inr avoid"
    and nn: "nonneg_lengths (heap s2 G)"
  obtain north south east west where b: "bbox request = (north, south, east, west)"
    by (cases "bbox request")
  have r0: "(0 :: real) \<le> 1000" by simp
  from avoid_loop_within [OF nn r0 al [unfolded b]]
  show "avoid = {v \<in> set (node_ids (heap s2 G)). \<exists>fire \<in> set hotspots.
                 (case bbox request of (north, south, east, west) \<Rightarrow>
                    west < longitude fire \<and> longitude fire < east
                  \<and> south < latitude fire \<and> latitude fire < north)
               \<and> (\<exists>c p. nearest_nodes e (heap s2 G) (longitude fire) (latitude fire) = Inr c
                     \<and> is_path (heap s2 G) c p v \<and> path_length (heap s2 G) p \<le> 1000)}"
    unfolding b by (auto simp: danger_zones_of_def)
next
  fix e2 :: env
  assume "fire_db e2 2015 ''CA'' = fire_db e 2015 ''CA'' \<and> graph_from_bbox e2 = graph_from_bbox e
          \<and> metric e2 = metric e \<and> fmt4 e2 = fmt4 e"
  then show "calculate_route e2 s request = calculate_route e s request"
    using calculate_route_env [of e2 e s request] by blast
next
  fix request2 :: RouteRequest
  assume "start_lat request2 = start_lat request \<and> start_lon request2 = start_lon request
          \<and> end_lat request2 = end_lat request \<and> end_lon request2 = end_lon request"
  then have "request2 = request" by simp
  then show "calculate_route e s request2 = calculate_route e s request" by simp
qed

lemma demo_steps:
  "fst (get_wildfires demo_env demo_state 2015 ''CA'') = Inr [demo_fire]"
  "fst (load_graph demo_env (snd (get_wildfires demo_env demo_state 2015 ''CA'')) (bbox demo_request)) = Inr 0"
  "heap (snd (load_graph demo_env (snd (get_wildfires demo_env demo_state 2015 ''CA'')) (bbox demo_request))) 0
     = demo_graph"
  "next_addr (snd (load_graph demo_env (snd (get_wildfires demo_env demo_state 2015 ''CA'')) (bbox demo_request)))
     = 1"
  "avoid_loop demo_env demo_graph (bbox demo_request) 1000 (danger_zones_of [demo_fire]) {} = Inr {3}"
  "route_on demo_env (remove_nodes_from demo_graph {3}) (start_lat demo_request, start_lon demo_request)
      (end_lat demo_request, end_lon demo_request) = Some (Inr (1, 5, [1, 2, 6, 4, 5]))"
  "coords_of demo_graph [1, 2, 6, 4, 5] = Inr [(0, 0), (0, 0.01), (0.01, 0.02), (0, 0.03), (0, 0.04)]"
  by code_simp+

theorem fixed_hazard_filter_and_radius_witness:
  "\<exists>s1 s2 s'.
      get_wildfires demo_env demo_state 2015 ''CA'' = (Inr [demo_fire], s1)
    \<and> load_graph demo_env s1 (bbox demo_request) = (Inr 0, s2)
    \<and> avoid_loop demo_env (heap s2 0) (bbox demo_request) 1000 (danger_zones_of [demo_fire]) {} = Inr {3}
    \<and> calculate_route demo_env demo_state demo_request
        = Some (Inr [(0, 0), (0, 0.01), (0.01, 0.02), (0, 0.03), (0, 0.04)], s')
    \<and> fire_db demo_env_other 1999 ''TX'' \<noteq> fire_db demo_env 1999 ''TX''
    \<and> calculate_route demo_env_other demo_state demo_request
        = calculate_route demo_env demo_state demo_request"
proof -
  define s1 where "s1 = snd (get_wildfires demo_env demo_state 2015 ''CA'')"
  define s2 where "s2 = snd (load_graph demo_env s1 (bbox demo_request))"
  have hz: "get_wildfires demo_env demo_state 2015 ''CA'' = (Inr [demo_fire], s1)"
    using demo_steps(1) by (simp add: s1_def prod_eq_iff)
  have lg: "load_graph demo_env s1 (bbox demo_request) = (Inr 0, s2)"
    using demo_steps(2) by (simp add: s1_def s2_def prod_eq_iff)
  have h0: "heap s2 0 = demo_graph"
    using demo_steps(3) by (simp add: s1_def s2_def)
  have na: "next_addr s2 = 1"
    using demo_steps(4) by (simp add: s1_def s2_def)
  have al: "avoid_loop demo_env (heap s2 0) (bbox demo_request) 1000 (danger_zones_of [demo_fire]) {} = Inr {3}"
    unfolding h0 by (rule demo_steps(5))
  note inst = fixed_hazard_filter_and_radius [OF hz lg]
  from inst [THEN conjunct2, THEN conjunct1, THEN spec, THEN mp, OF al, THEN conjunct1]
  obtain s' :: server_state where
    hp: "heap s' = (heap s2)(next_addr s2 := remove_nodes_from (heap s2 0) {3})"
    and cr: "calculate_route demo_env demo_state demo_request =
        (case route_on demo_env (remove_nodes_from (heap s2 0) {3})
                (start_lat demo_request, start_lon demo_request) (end_lat demo_request, end_lon demo_request) of
           None \<Rightarrow> None
         | Some (Inl err) \<Rightarrow> Some (Inl (handler err), s')
         | Some (Inr (sn, en, path)) \<Rightarrow>
             (case coords_of (heap s' 0) path of
                Inl err \<Rightarrow> Some (Inl (handler err), s')
              | Inr coords \<Rightarrow> Some (Inr coords, s')))"
    by blast
  from hp na h0 have h0': "heap s' 0 = demo_graph" by simp
  have res: "calculate_route demo_env demo_state demo_request
        = Some (Inr [(0, 0), (0, 0.01), (0.01, 0.02), (0, 0.03), (0, 0.04)], s')"
    unfolding cr h0 demo_steps(6) option.case sum.case prod.case h0' demo_steps(7) by (rule refl)
  have d: "fire_db demo_env_other 1999 ''TX'' \<noteq> fire_db demo_env 1999 ''TX''"
    by (simp add: demo_env_other_def demo_env_def)
  have "fire_db demo_env_other 2015 ''CA'' = fire_db demo_env 2015 ''CA''
      \<and> graph_from_bbox demo_env_other = graph_from_bbox demo_env
      \<and> metric demo_env_other = metric demo_env \<and> fmt4 demo_env_other = fmt4 demo_env"
    by (simp add: demo_env_other_def demo_env_def)
  with inst [THEN conjunct2, THEN conjunct2, THEN conjunct1, THEN spec, of demo_env_other]
  have same: "calculate_route demo_env_other demo_state demo_request
      = calculate_route demo_env demo_state demo_request"
    by blast
  from hz lg al res d same show ?thesis by blast
qed

section \<open>The route and the excluded nodes\<close>

lemma targets_remove_nodes_from: "targets (remove_nodes_from G ns) \<inter> ns = {}"
  by (auto simp: targets_def remove_nodes_from_def)

lemma node_ids_remove_nodes_from: "set (node_ids (remove_nodes_from G ns)) \<inter> ns = {}"
  by (auto simp: node_ids_def remove_nodes_from_def)

lemma route_on_avoids:
  assumes "route_on e (remove_nodes_from G avoid) sp ep = Some (Inr (sn, en, path))"
  shows "set path \<inter> avoid = {}"
proof -
  let ?Gs = "remove_nodes_from G avoid"
  from assms have sn: "nearest_nodes e ?Gs (snd sp) (fst sp) = Inr sn"
    and ap: "astar_path ?Gs sn en = Some (Inr path)"
    by (auto simp: route_on_def split: sum.splits option.splits)
  from nearest_nodes_mem [OF sn] node_ids_remove_nodes_from [of G avoid] have "sn \<notin> avoid" by auto
  with astar_path_nodes [OF ap] targets_remove_nodes_from [of G avoid] show ?thesis by auto
qed

text \<open>
  Claim C1.  When \<^verbatim>\<open>calculate_route\<close> returns a route, no node of the route's path
  is a member of the excluded-node set computed from the hazards; the coordinates returned
  are those of the nodes of that path.  This holds for every network, also one with
  negative lengths.
\<close>

theorem route_avoids_excluded_nodes:
  assumes "calculate_route_try e s request = Some (Inr p, s')"
  shows "set (safe_route_nodes p) \<inter> nodes_to_avoid p = {}
    \<and> coords_of (heap s' (plan_G p)) (safe_route_nodes p) = Inr (route_coords p)
    \<and> calculate_route e s request = Some (Inr (route_coords p), s')"
proof -
  note parts = calculate_route_try_Inr [OF assms]
  from parts have prep: "prepare_safe_graph e s request = (Inr (plan_G p, nodes_to_avoid p, G_safe p), s')"
    by simp
  from prepare_safe_graph_Inr [OF prep] obtain s2 :: server_state where
    "G_safe p = next_addr s2"
    "heap s' = (heap s2)(next_addr s2 := remove_nodes_from (heap s2 (plan_G p)) (nodes_to_avoid p))"
    by blast
  then have "heap s' (G_safe p) = remove_nodes_from (heap s2 (plan_G p)) (nodes_to_avoid p)" by simp
  with parts route_on_avoids [of e "heap s2 (plan_G p)" "nodes_to_avoid p"]
  have "set (safe_route_nodes p) \<inter> nodes_to_avoid p = {}" by metis
  moreover from assms have "calculate_route e s request = Some (Inr (route_coords p), s')"
    by (simp add: calculate_route_def)
  ultimately show ?thesis using parts by simp
qed

theorem route_avoids_excluded_nodes_witness:
  "map_option fst (calculate_route_try demo_env demo_state demo_request) = Some (Inr demo_plan)
   \<and> set [1, 2, 6, 4, 5] \<inter> {3 :: int} = {}
   \<and> map_option fst (calculate_route demo_env demo_state demo_request)
       = Some (Inr [(0, 0), (0, 0.01), (0.01, 0.02), (0, 0.03), (0, 0.04)])"
proof -
  from demo_run obtain s' where
    run: "calculate_route_try demo_env demo_state demo_request = Some (Inr demo_plan, s')"
    by (cases "calculate_route_try demo_env demo_state demo_request") auto
  from route_avoids_excluded_nodes [OF run] demo_run show ?thesis
    by (simp add: demo_plan_def)
qed

section \<open>Shortest routes\<close>

text \<open>
  Claim C2.  On a safe graph whose edge lengths are not negative, when a path exists
  between the two projected nodes, the route planner returns a path between them whose
  total length is least among all paths of the safe graph between these nodes.
\<close>

theorem route_on_shortest:
  assumes nn: "nonneg_lengths Gs"
    and start: "nearest_nodes e Gs (snd sp) (fst sp) = Inr sn"
    and stop: "nearest_nodes e Gs (snd ep) (fst ep) = Inr en"
    and conn: "is_path Gs sn p0 en"
  shows "\<exists>path. route_on e Gs sp ep = Some (Inr (sn, en, path))
    \<and> is_path Gs sn path en
    \<and> (\<forall>p. is_path Gs sn p en \<longrightarrow> path_length Gs path \<le> path_length Gs p)"
proof -
  from astar_path_correct [OF nn nearest_nodes_mem [OF start] nearest_nodes_mem [OF stop]]
  obtain r msg where r: "astar_path Gs sn en = Some r" and post: "astar_post Gs sn en msg r"
    by blast
  from post conn obtain path where "r = Inr path" "is_path Gs sn path en"
    "\<forall>p. is_path Gs sn p en \<longrightarrow> path_length Gs path \<le> path_length Gs p"
    unfolding astar_post_def by blast
  with r route_on_projected [OF start stop] show ?thesis by simp
qed

lemma demo_safe_facts:
  "nonneg_lengths demo_safe_graph"
  "nearest_nodes demo_env demo_safe_graph (snd (0, 0)) (fst (0, 0)) = Inr 1"
  "nearest_nodes demo_env demo_safe_graph (snd (0, 0.04)) (fst (0, 0.04)) = Inr 5"
  "is_path demo_safe_graph 1 [1, 2, 6, 4, 5] 5"
  "route_on demo_env demo_safe_graph (0, 0) (0, 0.04) = Some (Inr (1, 5, [1, 2, 6, 4, 5]))"
  "path_length demo_safe_graph [1, 2, 6, 4, 5] = 5000"
  by code_simp+

theorem route_on_shortest_witness:
  "nonneg_lengths demo_safe_graph
   \<and> nearest_nodes demo_env demo_safe_graph (snd (0, 0)) (fst (0, 0)) = Inr 1
   \<and> nearest_nodes demo_env demo_safe_graph (snd (0, 0.04)) (fst (0, 0.04)) = Inr 5
   \<and> is_path demo_safe_graph 1 [1, 2, 6, 4, 5] 5
   \<and> (\<exists>path. route_on demo_env demo_safe_graph (0, 0) (0, 0.04) = Some (Inr (1, 5, path))
         \<and> path = [1, 2, 6, 4, 5]
         \<and> (\<forall>p. is_path demo_safe_graph 1 p 5 \<longrightarrow> 5000 \<le> path_length demo_safe_graph p))"
proof -
  from route_on_shortest [OF demo_safe_facts(1,2,3,4)] demo_safe_facts(5,6)
  have "\<forall>p. is_path demo_safe_graph 1 p 5 \<longrightarrow> 5000 \<le> path_length demo_safe_graph p"
    by auto
  with demo_safe_facts show ?thesis by blast
qed

section \<open>No safe path\<close>

text \<open>
  Claim C5.  When the safe graph (edge lengths not negative) has no path between the
  two projected nodes, \<^verbatim>\<open>calculate_route\<close> returns, and its result is the 404 response
  "Could not find a safe path.", not the 500 response.
\<close>

theorem no_safe_path_is_404:
  assumes prep: "prepare_safe_graph e s request = (Inr (G, avoid, Gs), s')"
    and nn: "nonneg_lengths (heap s' Gs)"
    and start: "nearest_nodes e (heap s' Gs) (start_lon request) (start_lat request) = Inr sn"
    and stop: "nearest_nodes e (heap s' Gs) (end_lon request) (end_lat request) = Inr en"
    and nopath: "\<forall>p. \<not> is_path (heap s' Gs) sn p en"
  shows "calculate_route e s request = Some (Inl (HTTPException 404 ''Could not find a safe path.''), s')"
proof -
  from astar_path_correct [OF nn nearest_nodes_mem [OF start] nearest_nodes_mem [OF stop]]
  obtain r msg where r: "astar_path (heap s' Gs) sn en = Some r"
    and post: "astar_post (heap s' Gs) sn en msg r"
    by blast
  from post nopath have "r = Inl (NetworkXNoPath msg)"
    unfolding astar_post_def by blast
  with r route_on_projected [of e "heap s' Gs" "(start_lat request, start_lon request)" sn
      "(end_lat request, end_lon request)" en] start stop
  have "route_on e (heap s' Gs) (start_lat request, start_lon request) (end_lat request, end_lon request)
      = Some (Inl (NetworkXNoPath msg))"
    by simp
  with prep show ?thesis
    by (simp add: calculate_route_def calculate_route_try_def)
qed

lemma demo_line_prepare:
  "map_prod id (\<lambda>s'. heap s' 1) (prepare_safe_graph demo_env_line demo_state demo_request)
     = (Inr (0, {3}, 1), demo_line_safe)"
  by code_simp

lemma demo_line_facts:
  "nonneg_lengths demo_line_safe"
  "nearest_nodes demo_env_line demo_line_safe 0 0 = Inr 1"
  "nearest_nodes demo_env_line demo_line_safe 0.04 0 = Inr 5"
  "neighbors demo_line_safe 1 = [2]"
  "neighbors demo_line_safe 2 = [1]"
  by code_simp+

lemma demo_line_reach:
  "is_path demo_line_safe 1 p v \<Longrightarrow> v = 1 \<or> v = 2"
proof (induction p arbitrary: v rule: rev_induct)
  case Nil
  then show ?case by (simp add: is_path_def)
next
  case (snoc w p')
  from is_path_cases [OF snoc.prems] show ?case
  proof
    assume "p' @ [w] = [1] \<and> v = 1"
    then show ?thesis by simp
  next
    assume "\<exists>q u. p' @ [w] = q @ [v] \<and> is_path demo_line_safe 1 q u \<and> v \<in> set (neighbors demo_line_safe u)"
    then obtain u where u: "is_path demo_line_safe 1 p' u" "v \<in> set (neighbors demo_line_safe u)"
      by auto
    from snoc.IH [OF u(1)] u(2) demo_line_facts(4,5) show ?thesis by auto
  qed
qed

text \<open>
  The line 1 - 2 - 3 - 4 - 5 without a bypass: the fire on node 3 cuts node 5 off.
\<close>

theorem no_safe_path_is_404_witness:
  "\<exists>s'. prepare_safe_graph demo_env_line demo_state demo_request = (Inr (0, {3}, 1), s')
     \<and> nonneg_lengths (heap s' 1)
     \<and> nearest_nodes demo_env_line (heap s' 1) 0 0 = Inr 1
     \<and> nearest_nodes demo_env_line (heap s' 1) 0.04 0 = Inr 5
     \<and> (\<forall>p. \<not> is_path (heap s' 1) 1 p 5)
     \<and> calculate_route demo_env_line demo_state demo_request
         = Some (Inl (HTTPException 404 ''Could not find a safe path.''), s')"
proof -
  obtain r s' where p: "prepare_safe_graph demo_env_line demo_state demo_request = (r, s')"
    by (cases "prepare_safe_graph demo_env_line demo_state demo_request")
  with demo_line_prepare have prep: "prepare_safe_graph demo_env_line demo_state demo_request = (Inr (0, {3}, 1), s')"
    and hp: "heap s' 1 = demo_line_safe"
    by simp_all
  have c: "start_lon demo_request = 0" "start_lat demo_request = 0"
    "end_lon demo_request = 0.04" "end_lat demo_request = 0"
    by (simp_all add: demo_request_def)
  have nopath: "\<forall>p. \<not> is_path (heap s' 1) 1 p 5"
    using demo_line_reach hp by fastforce
  from no_safe_path_is_404 [OF prep, of 1 5] hp demo_line_facts(1,2,3) c nopath
  have "calculate_route demo_env_line demo_state demo_request
         = Some (Inl (HTTPException 404 ''Could not find a safe path.''), s')"
    by simp
  with prep hp demo_line_facts(1,2,3) nopath show ?thesis by auto
qed

section \<open>The radius\<close>

text \<open>
  Claim C6.  On a network whose edge lengths are not negative, for every list of
  hazards and all radii 0 \<le> r1 \<le> r2, the excluded-node set computed with r1 is a subset
  of the one computed with r2 (when the computation raises, it raises the same exception
  for both radii).
\<close>

theorem excluded_set_monotone_in_radius:
  assumes "nonneg_lengths G" and "0 \<le> r1" and "r1 \<le> r2"
  shows "(\<exists>A1 A2. avoid_loop e G box r1 (danger_zones_of hotspots) {} = Inr A1
            \<and> avoid_loop e G box r2 (danger_zones_of hotspots) {} = Inr A2 \<and> A1 \<subseteq> A2)
    \<or> (\<exists>err. avoid_loop e G box r1 (danger_zones_of hotspots) {} = Inl err
            \<and> avoid_loop e G box r2 (danger_zones_of hotspots) {} = Inl err)"
  using avoid_loop_mono [OF assms subset_refl] .

lemma demo_radius_facts:
  "nonneg_lengths demo_graph"
  "avoid_loop demo_env demo_graph (bbox demo_request) 1000 (danger_zones_of [demo_fire]) {} = Inr {3}"
  "avoid_loop demo_env demo_graph (bbox demo_request) 1100 (danger_zones_of [demo_fire]) {} = Inr {2, 3, 4}"
  by code_simp+

theorem excluded_set_monotone_in_radius_witness:
  "nonneg_lengths demo_graph \<and> (0 :: real) \<le> 1000 \<and> (1000 :: real) \<le> 1100
   \<and> avoid_loop demo_env demo_graph (bbox demo_request) 1000 (danger_zones_of [demo_fire]) {} = Inr {3}
   \<and> avoid_loop demo_env demo_graph (bbox demo_request) 1100 (danger_zones_of [demo_fire]) {} = Inr {2, 3, 4}
   \<and> {3 :: int} \<subseteq> {2, 3, 4}"
proof -
  have r: "(0 :: real) \<le> 1000" "(1000 :: real) \<le> 1100" by simp_all
  from excluded_set_monotone_in_radius [OF demo_radius_facts(1) r,
      of demo_env "bbox demo_request" "[demo_fire]"] demo_radius_facts(2,3)
  have "{3 :: int} \<subseteq> {2, 3, 4}" by auto
  with demo_radius_facts r show ?thesis by blast
qed

end
